theory Spec2Isabelle
  imports Main "HOL-Library.Word" "HOL-Library.Char_ord" "HOL-Library.List_Lexorder"
begin

section \<open>Data model\<close>

text \<open>
  \<^verbatim>\<open>std::size_t\<close> on the LP64 targets of the project: a 64-bit unsigned integer whose
  arithmetic wraps around. A pointer is an address of the same width, \<^verbatim>\<open>NULL\<close> is 0 and
  \<^verbatim>\<open>sizeof (void *)\<close> is 8.
\<close>

type_synonym size_t = "64 word"

text \<open>
  \<^verbatim>\<open>std::map<std::string, std::string>\<close>: the pairs in ascending key order, every key
  once. \<^verbatim>\<open>std::string\<close> compares byte by byte, a proper prefix first, which is the order
  of \<^typ>\<open>string\<close> here. Iterating the container is reading the list from its head.
\<close>

type_synonym labels = "(string \<times> string) list"

definition std_map :: "labels \<Rightarrow> bool" where
  "std_map m = sorted_wrt (<) (map fst m)"

text \<open>
  \<^verbatim>\<open>std::map::insert\<close>: the pair goes to its place in key order; when the key is already
  there the container is left as it is (the old value stays).
\<close>

fun map_insert :: "string \<times> string \<Rightarrow> labels \<Rightarrow> labels" where
  "map_insert kv [] = [kv]"
| "map_insert kv (p # m) =
     (if fst kv < fst p then kv # p # m
      else if fst kv = fst p then p # m
      else p # map_insert kv m)"

text \<open>A caller building its label mapping by inserting pairs one after the other.\<close>

fun inserted :: "(string \<times> string) list \<Rightarrow> labels \<Rightarrow> labels" where
  "inserted [] m = m"
| "inserted (kv # kvs) m = inserted kvs (map_insert kv m)"

text \<open>
  \<^verbatim>\<open>std::unordered_map<std::size_t, P*>\<close>: an association list with every key once;
  \<^verbatim>\<open>find\<close> is \<^const>\<open>map_of\<close>, \<^verbatim>\<open>size\<close> is the length, and \<^verbatim>\<open>insert\<close> adds the pair
  only when the key is absent. A pointer to a backend object is the object's handle.
\<close>

type_synonym cache = "(size_t \<times> nat) list"

definition cache_insert :: "size_t \<Rightarrow> nat \<Rightarrow> cache \<Rightarrow> cache" where
  "cache_insert k p c = (if map_of c k = None then c @ [(k, p)] else c)"

text \<open>
  \<^verbatim>\<open>std::to_string\<close> of an enum constant: the constant is promoted to \<^verbatim>\<open>int\<close> and printed
  in decimal, with a minus sign when negative.
\<close>

definition digit_char :: "nat \<Rightarrow> char" where
  "digit_char d = char_of (48 + d)"

function nat_digits :: "nat \<Rightarrow> string" where
  "nat_digits n =
     (if n < 10 then [digit_char n] else nat_digits (n div 10) @ [digit_char (n mod 10)])"
  by pat_completeness auto
termination
  by (relation "measure id") auto

definition to_string :: "int \<Rightarrow> string" where
  "to_string i = (if i < 0 then CHR ''-'' # nat_digits (nat (- i)) else nat_digits (nat i))"

subsection \<open>Collaborators\<close>

text \<open>
  Modelled from the spec: the prometheus backend (\<^verbatim>\<open>prometheus::Registry\<close>,
  \<^verbatim>\<open>Family<T>\<close>) is not part of the sources. Section 6 of the spec gives its interface:
  registering a configured builder returns a live Family handle, and a Family handle adds a
  labeled instance from a label mapping and construction arguments, returning a new
  Instance. The backend is the log of what it was asked to build: the names of the
  families registered, and for every instance its family, its labels and its construction
  arguments. A handle is the position of the object in its log, so every construction
  returns a handle that no earlier object has.
\<close>

record 'a backend =
  registered :: "string list"
  added :: "(nat \<times> labels \<times> 'a) list"

text \<open>
  What the header takes from elsewhere: \<^verbatim>\<open>std::hash<std::string>\<close>, the generated
  protobuf parsers \<^verbatim>\<open>MetricName_Parse\<close> and \<^verbatim>\<open>MetricLabelName_Parse\<close> (the enum constant
  of a name, when there is one), and whether the backend throws: \<open>Register_throws\<close> stands
  for the chain \<^verbatim>\<open>factory_().Name(proto_name).Register(*registry_)\<close> and \<open>Add_throws\<close> for
  \<^verbatim>\<open>family->Add(converted_labels, args...)\<close>; \<open>Some e\<close> is the exception \<open>e\<close> thrown.
\<close>

record ('a, 'e) collaborators =
  std_hash :: "string \<Rightarrow> size_t"
  MetricName_Parse :: "string \<Rightarrow> int option"
  MetricLabelName_Parse :: "string \<Rightarrow> int option"
  Register_throws :: "'a backend \<Rightarrow> string \<Rightarrow> 'e option"
  Add_throws :: "'a backend \<Rightarrow> nat \<Rightarrow> labels \<Rightarrow> 'a \<Rightarrow> 'e option"

definition Register ::
  "('a, 'e) collaborators \<Rightarrow> 'a backend \<Rightarrow> string \<Rightarrow> 'e + ('a backend \<times> nat)" where
  "Register env b proto_name =
     (case Register_throws env b proto_name of
        Some e \<Rightarrow> Inl e
      | None \<Rightarrow> Inr (b\<lparr>registered := registered b @ [proto_name]\<rparr>, length (registered b)))"

definition Family_Add ::
  "('a, 'e) collaborators \<Rightarrow> 'a backend \<Rightarrow> nat \<Rightarrow> labels \<Rightarrow> 'a \<Rightarrow> 'e + ('a backend \<times> nat)" where
  "Family_Add env b family converted_labels args =
     (case Add_throws env b family converted_labels args of
        Some e \<Rightarrow> Inl e
      | None \<Rightarrow> Inr (b\<lparr>added := added b @ [(family, converted_labels, args)]\<rparr>,
                     length (added b)))"

section \<open>MetricsRegistry\<close>

text \<open>
  The members \<^verbatim>\<open>families_\<close>, \<^verbatim>\<open>metrics_\<close> and \<^verbatim>\<open>registry_\<close>, written without the
  trailing underscore. The backend behind \<^verbatim>\<open>registry_\<close> is part of the state: it is what
  a call changes besides the two caches.
\<close>

record 'a MetricsRegistry =
  families :: cache
  metrics :: cache
  registry :: "'a backend"

definition new_registry :: "'a MetricsRegistry" where
  "new_registry = \<lparr>families = [], metrics = [], registry = \<lparr>registered = [], added = []\<rparr>\<rparr>"

definition SizeFamilies :: "'a MetricsRegistry \<Rightarrow> nat" where
  "SizeFamilies r = length (families r)"

definition SizeMetrics :: "'a MetricsRegistry \<Rightarrow> nat" where
  "SizeMetrics r = length (metrics r)"

text \<open>
  \<^verbatim>\<open>hash_name_and_labels\<close>: \<^verbatim>\<open>std::accumulate\<close> from the name over the labels in iteration
  order, appending the key and then the value of each, and the hash of the result.
\<close>

definition combined :: "string \<Rightarrow> labels \<Rightarrow> string" where
  "combined name lbls = foldl (\<lambda>acc label_pair. acc @ fst label_pair @ snd label_pair) name lbls"

definition hash_name_and_labels :: "('a, 'e) collaborators \<Rightarrow> string \<Rightarrow> labels \<Rightarrow> size_t" where
  "hash_name_and_labels env name lbls = std_hash env (combined name lbls)"

text \<open>
  \<^verbatim>\<open>parse_labels\<close>: every label name that is a \<^verbatim>\<open>MetricLabelName\<close> becomes the decimal
  string of the enum constant, and the pair is inserted into \<open>parsed_labels\<close>.
\<close>

definition label_name :: "('a, 'e) collaborators \<Rightarrow> string \<Rightarrow> string" where
  "label_name env raw =
     (case MetricLabelName_Parse env raw of Some label_name_enum \<Rightarrow> to_string label_name_enum
      | None \<Rightarrow> raw)"

fun parse_labels :: "('a, 'e) collaborators \<Rightarrow> labels \<Rightarrow> labels \<Rightarrow> labels" where
  "parse_labels env [] parsed_labels = parsed_labels"
| "parse_labels env (label_pair # rest) parsed_labels =
     parse_labels env rest
       (map_insert (label_name env (fst label_pair), snd label_pair) parsed_labels)"

text \<open>
  \<^verbatim>\<open>Get\<close>, first block (lines 83 to 99): the family of the name, from the cache or
  registered now. An exception of the backend leaves the function at once.
\<close>

definition proto_name :: "('a, 'e) collaborators \<Rightarrow> string \<Rightarrow> string" where
  "proto_name env name =
     (case MetricName_Parse env name of Some name_value \<Rightarrow> to_string name_value | None \<Rightarrow> name)"

definition Get_family ::
  "('a, 'e) collaborators \<Rightarrow> 'a MetricsRegistry \<Rightarrow> string \<Rightarrow> 'e + ('a MetricsRegistry \<times> nat)" where
  "Get_family env r name =
     (let name_hash = std_hash env name in
      case map_of (families r) name_hash of
        Some family \<Rightarrow> Inr (r, family)
      | None \<Rightarrow>
          (case Register env (registry r) (proto_name env name) of
             Inl e \<Rightarrow> Inl e
           | Inr (b, family) \<Rightarrow>
               Inr (r\<lparr>families := cache_insert name_hash family (families r),
                      registry := b\<rparr>, family)))"

text \<open>
  Second block (lines 101 to 113): the metric of the name and labels, from the cache or
  added to the family now.
\<close>

definition Get_metric ::
  "('a, 'e) collaborators \<Rightarrow> 'a MetricsRegistry \<Rightarrow> nat \<Rightarrow> string \<Rightarrow> labels \<Rightarrow> 'a
     \<Rightarrow> 'a MetricsRegistry \<times> ('e + nat)" where
  "Get_metric env r family name lbls args =
     (let metric_hash = hash_name_and_labels env name lbls in
      case map_of (metrics r) metric_hash of
        Some metric \<Rightarrow> (r, Inr metric)
      | None \<Rightarrow>
          (case Family_Add env (registry r) family (parse_labels env lbls []) args of
             Inl e \<Rightarrow> (r, Inl e)
           | Inr (b, metric) \<Rightarrow>
               (r\<lparr>metrics := cache_insert metric_hash metric (metrics r),
                  registry := b\<rparr>, Inr metric)))"

text \<open>
  \<^verbatim>\<open>Get\<close>: the registry after the call, and the exception that left it or the metric
  returned.
\<close>

definition Get ::
  "('a, 'e) collaborators \<Rightarrow> 'a MetricsRegistry \<Rightarrow> string \<Rightarrow> labels \<Rightarrow> 'a
     \<Rightarrow> 'a MetricsRegistry \<times> ('e + nat)" where
  "Get env r name lbls args =
     (case Get_family env r name of
        Inl e \<Rightarrow> (r, Inl e)
      | Inr (r1, family) \<Rightarrow> Get_metric env r1 family name lbls args)"

text \<open>A sequence of calls, the caller going on after an exception.\<close>

fun Gets ::
  "('a, 'e) collaborators \<Rightarrow> 'a MetricsRegistry \<Rightarrow> (string \<times> labels \<times> 'a) list
     \<Rightarrow> 'a MetricsRegistry" where
  "Gets env r [] = r"
| "Gets env r ((name, lbls, args) # calls) = Gets env (fst (Get env r name lbls args)) calls"

text \<open>
  What holds of a registry between calls: every key is cached once, and the handles in a
  cache are those of the backend's objects, in the order of their construction.
\<close>

definition consistent :: "'a MetricsRegistry \<Rightarrow> bool" where
  "consistent r \<longleftrightarrow>
     distinct (map fst (families r)) \<and> distinct (map fst (metrics r)) \<and>
     map snd (families r) = [0..<length (registered (registry r))] \<and>
     map snd (metrics r) = [0..<length (added (registry r))]"

section \<open>The keys as the specification words them\<close>

text \<open>
  The key scheme of the specification, for a caller that supplies the pairs \<open>kvs\<close> in any
  order: the family key is the hash of the raw name alone; the instance key is the hash of
  the raw name followed by the name and then the value of every label, the labels taken in
  ascending key order.
\<close>

definition spec_family_key :: "('a, 'e) collaborators \<Rightarrow> string \<Rightarrow> size_t" where
  "spec_family_key env name = std_hash env name"

definition spec_instance_key ::
  "('a, 'e) collaborators \<Rightarrow> string \<Rightarrow> (string \<times> string) list \<Rightarrow> size_t" where
  "spec_instance_key env name kvs =
     std_hash env (name @ concat (map (\<lambda>label. fst label @ snd label) (sort_key fst kvs)))"

section \<open>Collaborators for running the model\<close>

text \<open>
  A concrete set of collaborators, to run the registry on examples: a polynomial string
  hash in the place of \<^verbatim>\<open>std::hash\<close>; two names for the metric constant 7 and two for
  the label constant 3; a backend that rejects an empty family name and an instance
  without construction arguments (a histogram without bucket boundaries).
\<close>

definition poly_hash :: "string \<Rightarrow> size_t" where
  "poly_hash s = foldl (\<lambda>h c. h * 31 + of_char c) 0 s"

definition example_collaborators :: "(nat list, string) collaborators" where
  "example_collaborators =
     \<lparr>std_hash = poly_hash,
      MetricName_Parse = map_of [(''requests_total'', 7), (''requests'', 7)],
      MetricLabelName_Parse = map_of [(''http_method'', 3), (''method'', 3)],
      Register_throws = (\<lambda>b n. if n = [] then Some ''empty name'' else None),
      Add_throws = (\<lambda>b f l a. if a = [] then Some ''no buckets'' else None)\<rparr>"

text \<open>The same collaborators with a backend that accepts everything.\<close>

definition accepting_collaborators :: "(nat list, string) collaborators" where
  "accepting_collaborators =
     example_collaborators\<lparr>Register_throws := (\<lambda>b n. None), Add_throws := (\<lambda>b f l a. None)\<rparr>"

section \<open>lfds611_liblfds_aligned_malloc\<close>

text \<open>
  The allocator \<^verbatim>\<open>lfds611_abstraction_malloc\<close> is a parameter: the address of the block
  it returns for a request, or 0. Memory holds the pointers stored, by the address of the
  slot. The remainder by an alignment of 0 is a division by zero, which traps. The
  parameter \<^verbatim>\<open>size\<close> is \<open>sz\<close> here.
\<close>

datatype fault = Division_by_zero

type_synonym memory = "size_t \<rightharpoonup> size_t"

definition sizeof_ptr :: size_t where
  "sizeof_ptr = 8"

definition lfds611_liblfds_aligned_malloc ::
  "(size_t \<Rightarrow> size_t) \<Rightarrow> memory \<Rightarrow> size_t \<Rightarrow> size_t \<Rightarrow> fault + (memory \<times> size_t)" where
  "lfds611_liblfds_aligned_malloc lfds611_abstraction_malloc mem sz align_in_bytes =
     (let original_memory = lfds611_abstraction_malloc (sz + sizeof_ptr + align_in_bytes) in
      if original_memory \<noteq> 0 then
        (let memory = original_memory + sizeof_ptr in
         if align_in_bytes = 0 then Inl Division_by_zero
         else
           (let offset = align_in_bytes - memory mod align_in_bytes;
                memory = memory + offset
            in Inr (mem(memory - sizeof_ptr \<mapsto> original_memory), memory)))
      else Inr (mem, original_memory))"

text \<open>
  The bytes from \<open>a\<close>, \<open>len\<close> of them, lie in the block of \<open>n\<close> bytes that starts at \<open>p\<close>.
\<close>

definition in_block :: "size_t \<Rightarrow> size_t \<Rightarrow> size_t \<Rightarrow> nat \<Rightarrow> bool" where
  "in_block p n a len = (unat p \<le> unat a \<and> unat a + len \<le> unat p + unat n)"

section \<open>Label mappings\<close>

lemma keys_map_insert: "fst ` set (map_insert kv m) = insert (fst kv) (fst ` set m)"
  by (induction m) auto

lemma std_map_Cons: "std_map (p # m) \<longleftrightarrow> (\<forall>k \<in> fst ` set m. fst p < k) \<and> std_map m"
  by (auto simp: std_map_def)

lemma std_map_Nil: "std_map []"
  by (simp add: std_map_def)

lemma std_map_insert: "std_map m \<Longrightarrow> std_map (map_insert kv m)"
proof (induction m)
  case Nil
  then show ?case by (simp add: std_map_def)
next
  case (Cons p m)
  then show ?case
    by (auto simp: std_map_Cons keys_map_insert)
qed

lemma std_map_distinct: "std_map m \<Longrightarrow> distinct (map fst m)"
  by (simp add: std_map_def strict_sorted_iff)

lemma map_of_map_insert:
  "std_map m \<Longrightarrow>
   map_of (map_insert kv m) =
     (if fst kv \<in> fst ` set m then map_of m else (map_of m)(fst kv \<mapsto> snd kv))"
proof (induction m)
  case Nil
  then show ?case by (cases kv) auto
next
  case (Cons p m)
  then have less: "\<forall>k \<in> fst ` set m. fst p < k" and m: "std_map m"
    by (simp_all add: std_map_Cons)
  show ?case
  proof (cases "fst kv < fst p")
    case True
    then have "fst kv \<notin> fst ` set (p # m)"
      using less by (auto simp del: image_eqI)
    with True show ?thesis by (cases kv) simp
  next
    case False
    show ?thesis
    proof (cases "fst kv = fst p")
      case True
      then show ?thesis by simp
    next
      case ne: False
      with False Cons.IH [OF m] show ?thesis
        by (cases p) (auto simp: fun_eq_iff)
    qed
  qed
qed

lemma set_map_insert:
  "std_map m \<Longrightarrow>
   set (map_insert kv m) = (if fst kv \<in> fst ` set m then set m else insert kv (set m))"
proof (induction m)
  case Nil
  then show ?case by simp
next
  case (Cons p m)
  then have less: "\<forall>k \<in> fst ` set m. fst p < k" and m: "std_map m"
    by (simp_all add: std_map_Cons)
  show ?case
  proof (cases "fst kv < fst p")
    case True
    then have "fst kv \<notin> fst ` set (p # m)"
      using less by (auto simp del: image_eqI)
    with True show ?thesis by simp
  next
    case False
    with Cons.IH [OF m] show ?thesis
      by auto
  qed
qed

lemma set_map_insert_subset: "set (map_insert kv m) \<subseteq> insert kv (set m)"
  by (induction m) auto

lemma std_map_inserted: "std_map m \<Longrightarrow> std_map (inserted kvs m)"
  by (induction kvs arbitrary: m) (simp_all add: std_map_insert)

lemma keys_inserted: "fst ` set (inserted kvs m) = fst ` set m \<union> fst ` set kvs"
  by (induction kvs arbitrary: m) (auto simp: keys_map_insert)

lemma set_inserted:
  "std_map m \<Longrightarrow> distinct (map fst kvs) \<Longrightarrow> fst ` set kvs \<inter> fst ` set m = {} \<Longrightarrow>
   set (inserted kvs m) = set kvs \<union> set m"
proof (induction kvs arbitrary: m)
  case Nil
  then show ?case by simp
next
  case (Cons kv kvs)
  have fresh: "fst kv \<notin> fst ` set m"
    using Cons.prems(3) by auto
  have step: "set (map_insert kv m) = insert kv (set m)"
    using Cons.prems(1) fresh by (simp add: set_map_insert)
  have "fst ` set kvs \<inter> fst ` set (map_insert kv m) = {}"
    using Cons.prems(2,3) by (auto simp: keys_map_insert)
  with Cons.IH [of "map_insert kv m"] Cons.prems(1,2) step show ?case
    by (simp add: std_map_insert)
qed

lemma set_inserted_subset: "set (inserted kvs m) \<subseteq> set m \<union> set kvs"
proof (induction kvs arbitrary: m)
  case Nil
  then show ?case by simp
next
  case (Cons kv kvs)
  show ?case
    using Cons.IH [of "map_insert kv m"] set_map_insert_subset [of kv m] by auto
qed

lemma std_map_unique: "std_map a \<Longrightarrow> std_map b \<Longrightarrow> set a = set b \<Longrightarrow> a = b"
proof -
  assume a: "std_map a" and b: "std_map b" and eq: "set a = set b"
  have "inj_on fst (set a)"
    using std_map_distinct [OF a] by (simp add: distinct_map)
  then have "inj_on fst (set a \<union> set b)"
    using eq by simp
  then show "a = b"
    using a b eq
    by (intro map_sorted_distinct_set_unique [of fst])
       (simp_all add: std_map_def strict_sorted_iff)
qed

lemma map_of_insert_append:
  assumes "std_map m"
  shows "map_of (map_insert kv m @ rest) = map_of (m @ kv # rest)"
proof (cases "fst kv \<in> fst ` set m")
  case True
  then obtain v where v: "map_of m (fst kv) = Some v"
    by (metis map_of_eq_None_iff not_Some_eq)
  have "map_of (m @ kv # rest) x = map_of (m @ rest) x" for x
    using v by (cases kv) (simp add: map_add_def split: option.splits)
  moreover have "map_of (map_insert kv m @ rest) x = map_of (m @ rest) x" for x
    using True assms by (simp add: map_of_map_insert)
  ultimately show ?thesis by (simp add: fun_eq_iff)
next
  case False
  then have none: "map_of m (fst kv) = None"
    by (simp add: map_of_eq_None_iff)
  have "map_of (map_insert kv m @ rest) x = map_of (m @ kv # rest) x" for x
    using False assms none
    by (cases kv) (simp add: map_of_map_insert map_add_def split: option.splits)
  then show ?thesis by (simp add: fun_eq_iff)
qed

lemma map_of_inserted: "std_map m \<Longrightarrow> map_of (inserted kvs m) = map_of (m @ kvs)"
proof (induction kvs arbitrary: m)
  case Nil
  then show ?case by simp
next
  case (Cons kv kvs)
  have "map_of (inserted (kv # kvs) m) = map_of (map_insert kv m @ kvs)"
    using Cons.IH [of "map_insert kv m"] Cons.prems by (simp add: std_map_insert)
  also have "\<dots> = map_of (m @ kv # kvs)"
    using Cons.prems by (rule map_of_insert_append)
  finally show ?case .
qed

lemma inserted_sort_key:
  assumes "distinct (map fst kvs)"
  shows "inserted kvs [] = sort_key fst kvs"
proof (rule std_map_unique)
  show "std_map (inserted kvs [])"
    by (simp add: std_map_inserted std_map_Nil)
  have "distinct kvs" and inj: "inj_on fst (set kvs)"
    using assms by (simp_all add: distinct_map)
  then have "distinct (map fst (sort_key fst kvs))"
    by (simp add: distinct_map)
  then show "std_map (sort_key fst kvs)"
    by (simp add: std_map_def strict_sorted_iff)
  show "set (inserted kvs []) = set (sort_key fst kvs)"
    using assms by (simp add: set_inserted std_map_Nil)
qed

lemma inserted_order_free:
  assumes "distinct (map fst kvs)" and "distinct (map fst kvs')" and "set kvs' = set kvs"
  shows "inserted kvs' [] = inserted kvs []"
proof (rule std_map_unique)
  show "std_map (inserted kvs' [])" and "std_map (inserted kvs [])"
    by (simp_all add: std_map_inserted std_map_Nil)
  show "set (inserted kvs' []) = set (inserted kvs [])"
    using assms by (simp add: set_inserted std_map_Nil)
qed

lemma filter_key_unique:
  "distinct (map fst xs) \<Longrightarrow> map_of xs k = Some v \<Longrightarrow> filter (\<lambda>p. fst p = k) xs = [(k, v)]"
proof (induction xs)
  case Nil
  then show ?case by simp
next
  case (Cons p xs)
  show ?case
  proof (cases "fst p = k")
    case True
    then have "k \<notin> fst ` set xs"
      using Cons.prems(1) by simp
    then have "filter (\<lambda>q. fst q = k) xs = []"
      by (force simp: filter_empty_conv)
    with True Cons.prems(2) show ?thesis by (cases p) auto
  next
    case False
    with Cons show ?thesis by (cases p) auto
  qed
qed

lemma length_std_map: "std_map m \<Longrightarrow> length m = card (fst ` set m)"
  using distinct_card [of "map fst m"] by (simp add: std_map_distinct)

text \<open>In a mapping read in key order, a name is first found at its least raw key.\<close>

lemma map_of_least_key:
  assumes "std_map ls" and "(k1, v1) \<in> set ls"
    and "\<forall>k \<in> fst ` set ls. f k = f k1 \<longrightarrow> k1 \<le> k"
  shows "map_of (map (\<lambda>p. (f (fst p), snd p)) ls) (f k1) = Some v1"
  using assms
proof (induction ls)
  case Nil
  then show ?case by simp
next
  case (Cons p ls)
  then have less: "\<forall>k \<in> fst ` set ls. fst p < k" and ls: "std_map ls"
    by (simp_all add: std_map_Cons)
  show ?case
  proof (cases "p = (k1, v1)")
    case True
    then show ?thesis by simp
  next
    case False
    with Cons.prems(2) have mem: "(k1, v1) \<in> set ls" by simp
    then have "fst p < k1"
      using less by force
    then have "f (fst p) \<noteq> f k1"
      using Cons.prems(3) by auto
    moreover have "map_of (map (\<lambda>p. (f (fst p), snd p)) ls) (f k1) = Some v1"
      using Cons.IH [OF ls mem] Cons.prems(3) by simp
    ultimately show ?thesis by simp
  qed
qed

lemma combined_concat: "combined name lbls = name @ concat (map (\<lambda>p. fst p @ snd p) lbls)"
  unfolding combined_def by (induction lbls arbitrary: name) simp_all

lemma instance_key_inserted:
  assumes "distinct (map fst kvs)"
  shows "hash_name_and_labels env name (inserted kvs []) = spec_instance_key env name kvs"
proof -
  show ?thesis
    by (simp add: hash_name_and_labels_def spec_instance_key_def combined_concat
          inserted_sort_key [OF assms])
qed

lemma instance_key_ambiguous:
  "hash_name_and_labels env name [(''a'', ''bc'')] = hash_name_and_labels env name [(''ab'', ''c'')]"
  by (simp add: hash_name_and_labels_def combined_def)

lemma parse_labels_inserted:
  "parse_labels env ls parsed = inserted (map (\<lambda>p. (label_name env (fst p), snd p)) ls) parsed"
  by (induction ls arbitrary: parsed) simp_all

lemma std_map_parse_labels: "std_map (parse_labels env lbls [])"
  by (simp add: parse_labels_inserted std_map_inserted std_map_Nil)

lemma keys_parse_labels:
  "fst ` set (parse_labels env lbls []) = label_name env ` fst ` set lbls"
  by (auto simp: parse_labels_inserted keys_inserted image_image)

lemma map_of_parse_labels:
  "map_of (parse_labels env lbls []) =
     map_of (map (\<lambda>p. (label_name env (fst p), snd p)) lbls)"
  by (simp add: parse_labels_inserted map_of_inserted std_map_Nil)

lemma parse_labels_values:
  "(k', v) \<in> set (parse_labels env lbls []) \<Longrightarrow> \<exists>k. (k, v) \<in> set lbls \<and> k' = label_name env k"
proof -
  assume "(k', v) \<in> set (parse_labels env lbls [])"
  then have "(k', v) \<in> (\<lambda>p. (label_name env (fst p), snd p)) ` set lbls"
    using set_inserted_subset [of "map (\<lambda>p. (label_name env (fst p), snd p)) lbls" "[]"]
    by (auto simp: parse_labels_inserted)
  then obtain p where "p \<in> set lbls" and "k' = label_name env (fst p)" and "v = snd p"
    by auto
  then show ?thesis
    by (intro exI [of _ "fst p"]) simp
qed

lemma parse_labels_all_pairs:
  assumes "distinct (map (\<lambda>p. label_name env (fst p)) lbls)"
  shows "set (parse_labels env lbls []) = (\<lambda>p. (label_name env (fst p), snd p)) ` set lbls"
proof -
  have "distinct (map fst (map (\<lambda>p. (label_name env (fst p), snd p)) lbls))"
    using assms by (simp add: comp_def)
  then show ?thesis
    by (simp add: parse_labels_inserted set_inserted std_map_Nil)
qed

section \<open>The outcomes of Get\<close>

lemma Get_family_hit:
  "map_of (families r) (std_hash env name) = Some family \<Longrightarrow>
   Get_family env r name = Inr (r, family)"
  by (simp add: Get_family_def)

lemma Get_family_throw:
  "map_of (families r) (std_hash env name) = None \<Longrightarrow>
   Register_throws env (registry r) (proto_name env name) = Some e \<Longrightarrow>
   Get_family env r name = Inl e"
  by (simp add: Get_family_def Register_def)

lemma Get_family_miss:
  "map_of (families r) (std_hash env name) = None \<Longrightarrow>
   Register_throws env (registry r) (proto_name env name) = None \<Longrightarrow>
   Get_family env r name =
     Inr (r\<lparr>families := families r @ [(std_hash env name, length (registered (registry r)))],
            registry := (registry r)\<lparr>registered :=
              registered (registry r) @ [proto_name env name]\<rparr>\<rparr>,
          length (registered (registry r)))"
  by (simp add: Get_family_def Register_def cache_insert_def)

lemma Get_metric_hit:
  "map_of (metrics r) (hash_name_and_labels env name lbls) = Some metric \<Longrightarrow>
   Get_metric env r family name lbls args = (r, Inr metric)"
  by (simp add: Get_metric_def)

lemma Get_metric_throw:
  "map_of (metrics r) (hash_name_and_labels env name lbls) = None \<Longrightarrow>
   Add_throws env (registry r) family (parse_labels env lbls []) args = Some e \<Longrightarrow>
   Get_metric env r family name lbls args = (r, Inl e)"
  by (simp add: Get_metric_def Family_Add_def)

lemma Get_metric_miss:
  "map_of (metrics r) (hash_name_and_labels env name lbls) = None \<Longrightarrow>
   Add_throws env (registry r) family (parse_labels env lbls []) args = None \<Longrightarrow>
   Get_metric env r family name lbls args =
     (r\<lparr>metrics := metrics r @ [(hash_name_and_labels env name lbls, length (added (registry r)))],
        registry := (registry r)\<lparr>added :=
          added (registry r) @ [(family, parse_labels env lbls [], args)]\<rparr>\<rparr>,
      Inr (length (added (registry r))))"
  by (simp add: Get_metric_def Family_Add_def cache_insert_def)

text \<open>Every outcome of the first block, and of the second.\<close>

lemma Get_family_outcomes:
  obtains (hit) family where "map_of (families r) (std_hash env name) = Some family"
      "Get_family env r name = Inr (r, family)"
  | (throw) e where "map_of (families r) (std_hash env name) = None"
      "Register_throws env (registry r) (proto_name env name) = Some e"
      "Get_family env r name = Inl e"
  | (miss) "map_of (families r) (std_hash env name) = None"
      "Register_throws env (registry r) (proto_name env name) = None"
      "Get_family env r name =
         Inr (r\<lparr>families := families r @ [(std_hash env name, length (registered (registry r)))],
                registry := (registry r)\<lparr>registered :=
                  registered (registry r) @ [proto_name env name]\<rparr>\<rparr>,
              length (registered (registry r)))"
proof (cases "map_of (families r) (std_hash env name)")
  case (Some family)
  then show ?thesis by (intro hit [of family]) (simp_all add: Get_family_hit)
next
  case None
  show ?thesis
  proof (cases "Register_throws env (registry r) (proto_name env name)")
    case (Some e)
    with None show ?thesis by (intro throw [of e]) (simp_all add: Get_family_throw)
  next
    case no: None
    with None show ?thesis by (intro miss) (simp_all add: Get_family_miss)
  qed
qed

lemma Get_metric_outcomes:
  obtains (hit) metric where "map_of (metrics r) (hash_name_and_labels env name lbls) = Some metric"
      "Get_metric env r family name lbls args = (r, Inr metric)"
  | (throw) e where "map_of (metrics r) (hash_name_and_labels env name lbls) = None"
      "Add_throws env (registry r) family (parse_labels env lbls []) args = Some e"
      "Get_metric env r family name lbls args = (r, Inl e)"
  | (miss) "map_of (metrics r) (hash_name_and_labels env name lbls) = None"
      "Add_throws env (registry r) family (parse_labels env lbls []) args = None"
      "Get_metric env r family name lbls args =
         (r\<lparr>metrics := metrics r @
              [(hash_name_and_labels env name lbls, length (added (registry r)))],
            registry := (registry r)\<lparr>added :=
              added (registry r) @ [(family, parse_labels env lbls [], args)]\<rparr>\<rparr>,
          Inr (length (added (registry r))))"
proof (cases "map_of (metrics r) (hash_name_and_labels env name lbls)")
  case (Some metric)
  then show ?thesis by (intro hit [of metric]) (simp_all add: Get_metric_hit)
next
  case None
  show ?thesis
  proof (cases "Add_throws env (registry r) family (parse_labels env lbls []) args")
    case (Some e)
    with None show ?thesis by (intro throw [of e]) (simp_all add: Get_metric_throw)
  next
    case no: None
    with None show ?thesis by (intro miss) (simp_all add: Get_metric_miss)
  qed
qed

lemma map_of_snoc_Some: "map_of c k = Some v \<Longrightarrow> map_of (c @ e) k = Some v"
  by (simp add: map_add_Some_iff)

lemma map_of_keys: "map_of c k = Some v \<Longrightarrow> k \<in> fst ` set c"
  by (metis map_of_eq_None_iff option.distinct(1))

lemma Get_family_keeps:
  assumes "Get_family env r name = Inr (r1, family)"
  shows "map_of (families r1) (std_hash env name) = Some family"
    and "map_of (families r) k = Some f \<Longrightarrow> map_of (families r1) k = Some f"
    and "metrics r1 = metrics r"
    and "added (registry r1) = added (registry r)"
proof -
  show "map_of (families r1) (std_hash env name) = Some family"
    using assms by (cases rule: Get_family_outcomes [of r env name]) (auto simp: map_add_def)
  show "map_of (families r) k = Some f \<Longrightarrow> map_of (families r1) k = Some f"
    using assms by (cases rule: Get_family_outcomes [of r env name]) (auto simp: map_add_def)
  show "metrics r1 = metrics r"
    using assms by (cases rule: Get_family_outcomes [of r env name]) auto
  show "added (registry r1) = added (registry r)"
    using assms by (cases rule: Get_family_outcomes [of r env name]) auto
qed

lemma Get_metric_keeps:
  assumes "Get_metric env r family name lbls args = (r', res)"
  shows "map_of (metrics r) k = Some m \<Longrightarrow> map_of (metrics r') k = Some m"
    and "families r' = families r"
    and "registered (registry r') = registered (registry r)"
    and "res = Inr metric \<Longrightarrow> map_of (metrics r') (hash_name_and_labels env name lbls) = Some metric"
proof -
  show "map_of (metrics r) k = Some m \<Longrightarrow> map_of (metrics r') k = Some m"
    using assms
    by (cases rule: Get_metric_outcomes [of r env name lbls family args])
       (auto simp: map_add_def)
  show "families r' = families r"
    using assms by (cases rule: Get_metric_outcomes [of r env name lbls family args]) auto
  show "registered (registry r') = registered (registry r)"
    using assms by (cases rule: Get_metric_outcomes [of r env name lbls family args]) auto
  show "res = Inr metric \<Longrightarrow> map_of (metrics r') (hash_name_and_labels env name lbls) = Some metric"
    using assms
    by (cases rule: Get_metric_outcomes [of r env name lbls family args])
       (auto simp: map_add_def)
qed

text \<open>The two blocks of a call, named.\<close>

lemma Get_blocks:
  obtains (family_throws) e where "Get_family env r name = Inl e"
      "Get env r name lbls args = (r, Inl e)"
  | (family_found) r1 family where "Get_family env r name = Inr (r1, family)"
      "Get env r name lbls args = Get_metric env r1 family name lbls args"
  by (cases "Get_family env r name") (auto simp: Get_def)

text \<open>What each block of a call does to the caches and to the backend.\<close>

lemma Get_family_step:
  assumes "Get_family env r name = Inr (r1, family)"
  shows "r1 = r \<and> map_of (families r) (std_hash env name) = Some family \<or>
    map_of (families r) (std_hash env name) = None \<and>
    family = length (registered (registry r)) \<and>
    families r1 = families r @ [(std_hash env name, length (registered (registry r)))] \<and>
    registered (registry r1) = registered (registry r) @ [proto_name env name]"
  using assms by (cases rule: Get_family_outcomes [of r env name]) auto

lemma Get_family_throws:
  assumes "Get_family env r name = Inl e"
  shows "map_of (families r) (std_hash env name) = None \<and>
    Register_throws env (registry r) (proto_name env name) = Some e"
  using assms by (cases rule: Get_family_outcomes [of r env name]) auto

lemma Get_metric_step:
  assumes "Get_metric env r family name lbls args = (r', res)"
  shows "r' = r \<and> (\<exists>metric. res = Inr metric \<and>
        map_of (metrics r) (hash_name_and_labels env name lbls) = Some metric) \<or>
    r' = r \<and> map_of (metrics r) (hash_name_and_labels env name lbls) = None \<and>
      (\<exists>e. res = Inl e \<and>
        Add_throws env (registry r) family (parse_labels env lbls []) args = Some e) \<or>
    map_of (metrics r) (hash_name_and_labels env name lbls) = None \<and>
    res = Inr (length (added (registry r))) \<and>
    families r' = families r \<and> registered (registry r') = registered (registry r) \<and>
    metrics r' = metrics r @ [(hash_name_and_labels env name lbls, length (added (registry r)))] \<and>
    added (registry r') = added (registry r) @ [(family, parse_labels env lbls [], args)]"
  using assms by (cases rule: Get_metric_outcomes [of r env name lbls family args]) auto

lemma Get_changes:
  assumes "Get env r name lbls args = (r', res)"
  shows "families r' = families r \<or>
      families r' = families r @ [(std_hash env name, length (registered (registry r)))]"
    and "metrics r' = metrics r \<or>
      metrics r' = metrics r @ [(hash_name_and_labels env name lbls, length (added (registry r)))]"
proof -
  have both: "(families r' = families r \<or>
      families r' = families r @ [(std_hash env name, length (registered (registry r)))]) \<and>
    (metrics r' = metrics r \<or>
      metrics r' = metrics r @ [(hash_name_and_labels env name lbls, length (added (registry r)))])"
  proof (cases rule: Get_blocks [of env r name lbls args])
    case (family_throws e)
    with assms show ?thesis by simp
  next
    case (family_found r1 family)
    then have m: "Get_metric env r1 family name lbls args = (r', res)"
      using assms by simp
    show ?thesis
      using Get_family_step [OF family_found(1)] Get_metric_step [OF m]
        Get_family_keeps(3,4) [OF family_found(1)] by auto
  qed
  from both show "families r' = families r \<or>
      families r' = families r @ [(std_hash env name, length (registered (registry r)))]"
    by simp
  from both show "metrics r' = metrics r \<or>
      metrics r' = metrics r @ [(hash_name_and_labels env name lbls, length (added (registry r)))]"
    by simp
qed

lemma Get_succeeds:
  assumes "\<forall>b n. Register_throws env b n = None"
    and "\<forall>b f l a. Add_throws env b f l a = None"
  shows "\<exists>r' metric. Get env r name lbls args = (r', Inr metric)"
proof (cases rule: Get_blocks [of env r name lbls args])
  case (family_throws e)
  then show ?thesis
    using Get_family_throws [of env r name e] assms(1) by simp
next
  case (family_found r1 family)
  obtain r' res where m: "Get_metric env r1 family name lbls args = (r', res)"
    by force
  then show ?thesis
    using Get_metric_step [OF m] assms(2) family_found(2) by auto
qed


lemma Get_cached:
  assumes "Get env r name lbls args = (r', Inr metric)"
  shows "\<exists>family. map_of (families r') (std_hash env name) = Some family"
    and "map_of (metrics r') (hash_name_and_labels env name lbls) = Some metric"
proof -
  from assms obtain r1 family where f: "Get_family env r name = Inr (r1, family)"
    and m: "Get_metric env r1 family name lbls args = (r', Inr metric)"
    by (cases rule: Get_blocks [of env r name lbls args]) auto
  show "\<exists>family. map_of (families r') (std_hash env name) = Some family"
    using Get_family_keeps(1) [OF f] Get_metric_keeps(2) [OF m] by simp
  show "map_of (metrics r') (hash_name_and_labels env name lbls) = Some metric"
    using Get_metric_keeps(4) [OF m] by simp
qed

lemma Get_hit:
  "map_of (families r) (std_hash env name) = Some family \<Longrightarrow>
   map_of (metrics r) (hash_name_and_labels env name lbls) = Some metric \<Longrightarrow>
   Get env r name lbls args = (r, Inr metric)"
  by (simp add: Get_def Get_family_hit Get_metric_hit)

lemma Get_family_keys:
  assumes "Get_family env r name = Inr (r1, family)"
  shows "fst ` set (families r1) = insert (std_hash env name) (fst ` set (families r))"
    and "(r1 = r) = (std_hash env name \<in> fst ` set (families r))"
proof -
  show "fst ` set (families r1) = insert (std_hash env name) (fst ` set (families r))"
    using assms
    by (cases rule: Get_family_outcomes [of r env name]) (auto dest: map_of_keys)
  show "(r1 = r) = (std_hash env name \<in> fst ` set (families r))"
  proof (cases rule: Get_family_outcomes [of r env name])
    case (hit f)
    with assms show ?thesis by (auto dest: map_of_keys)
  next
    case (throw e)
    with assms show ?thesis by simp
  next
    case miss
    have "families r1 \<noteq> families r"
      using assms miss(3) by auto
    then have "r1 \<noteq> r" by auto
    with miss(1) show ?thesis by (simp add: map_of_eq_None_iff)
  qed
qed

lemma Get_metric_keys:
  assumes "Get_metric env r family name lbls args = (r', Inr metric)"
  shows "fst ` set (metrics r') = insert (hash_name_and_labels env name lbls) (fst ` set (metrics r))"
    and "(r' = r) = (hash_name_and_labels env name lbls \<in> fst ` set (metrics r))"
proof -
  show "fst ` set (metrics r') =
      insert (hash_name_and_labels env name lbls) (fst ` set (metrics r))"
    using assms
    by (cases rule: Get_metric_outcomes [of r env name lbls family args])
       (auto dest: map_of_keys)
  show "(r' = r) = (hash_name_and_labels env name lbls \<in> fst ` set (metrics r))"
  proof (cases rule: Get_metric_outcomes [of r env name lbls family args])
    case (hit f)
    with assms show ?thesis by (auto dest: map_of_keys)
  next
    case (throw e)
    with assms show ?thesis by simp
  next
    case miss
    have "metrics r' \<noteq> metrics r"
      using assms miss(3) by auto
    then have "r' \<noteq> r" by auto
    with miss(1) show ?thesis by (simp add: map_of_eq_None_iff)
  qed
qed

lemma Get_keys:
  assumes "Get env r name lbls args = (r', Inr metric)"
  shows "fst ` set (families r') = insert (std_hash env name) (fst ` set (families r))"
    and "fst ` set (metrics r') = insert (hash_name_and_labels env name lbls) (fst ` set (metrics r))"
    and "(r' = r) = (std_hash env name \<in> fst ` set (families r) \<and>
           hash_name_and_labels env name lbls \<in> fst ` set (metrics r))"
proof -
  from assms obtain r1 family where f: "Get_family env r name = Inr (r1, family)"
    and m: "Get_metric env r1 family name lbls args = (r', Inr metric)"
    by (cases rule: Get_blocks [of env r name lbls args]) auto
  show "fst ` set (families r') = insert (std_hash env name) (fst ` set (families r))"
    using Get_family_keys(1) [OF f] Get_metric_keeps(2) [OF m] by simp
  show "fst ` set (metrics r') =
      insert (hash_name_and_labels env name lbls) (fst ` set (metrics r))"
    using Get_metric_keys(1) [OF m] Get_family_keeps(3) [OF f] by simp
  show "(r' = r) = (std_hash env name \<in> fst ` set (families r) \<and>
           hash_name_and_labels env name lbls \<in> fst ` set (metrics r))"
  proof (cases "r1 = r")
    case True
    then show ?thesis
      using Get_family_keys(2) [OF f] Get_metric_keys(2) [OF m] by simp
  next
    case False
    then have "std_hash env name \<notin> fst ` set (families r)"
      using Get_family_keys(2) [OF f] by simp
    moreover have "std_hash env name \<in> fst ` set (families r')"
      using Get_family_keys(1) [OF f] Get_metric_keeps(2) [OF m] by simp
    ultimately show ?thesis by auto
  qed
qed


lemma Get_keys_subset:
  assumes "Get env r name lbls args = (r', res)"
  shows "fst ` set (families r') \<subseteq> insert (std_hash env name) (fst ` set (families r))"
    and "fst ` set (metrics r') \<subseteq>
      insert (hash_name_and_labels env name lbls) (fst ` set (metrics r))"
proof -
  show "fst ` set (families r') \<subseteq> insert (std_hash env name) (fst ` set (families r))"
    using Get_changes(1) [OF assms] by (elim disjE) (simp_all add: subset_insertI)
  show "fst ` set (metrics r') \<subseteq>
      insert (hash_name_and_labels env name lbls) (fst ` set (metrics r))"
    using Get_changes(2) [OF assms] by (elim disjE) (simp_all add: subset_insertI)
qed

lemma Get_family_miss_registers:
  assumes "map_of (families r) (std_hash env name) = None"
    and "Get env r name lbls args = (r', Inr metric)"
  shows "families r' = families r @ [(std_hash env name, length (registered (registry r)))]"
    and "registered (registry r') = registered (registry r) @ [proto_name env name]"
proof -
  from assms(2) obtain r1 family where f: "Get_family env r name = Inr (r1, family)"
    and m: "Get_metric env r1 family name lbls args = (r', Inr metric)"
    by (cases rule: Get_blocks [of env r name lbls args]) auto
  show "families r' = families r @ [(std_hash env name, length (registered (registry r)))]"
    using Get_family_step [OF f] Get_metric_keeps(2) [OF m] assms(1) by auto
  show "registered (registry r') = registered (registry r) @ [proto_name env name]"
    using Get_family_step [OF f] Get_metric_keeps(3) [OF m] assms(1) by auto
qed

lemma Get_miss_added:
  assumes "Get env r name lbls args = (r', Inr metric)"
    and "map_of (metrics r) (hash_name_and_labels env name lbls) = None"
  shows "\<exists>family. map_of (families r') (std_hash env name) = Some family \<and>
      added (registry r') = added (registry r) @ [(family, parse_labels env lbls [], args)]"
proof -
  from assms(1) obtain r1 family where f: "Get_family env r name = Inr (r1, family)"
    and m: "Get_metric env r1 family name lbls args = (r', Inr metric)"
    by (cases rule: Get_blocks [of env r name lbls args]) auto
  have none: "map_of (metrics r1) (hash_name_and_labels env name lbls) = None"
    using assms(2) Get_family_keeps(3) [OF f] by simp
  have "added (registry r') =
      added (registry r1) @ [(family, parse_labels env lbls [], args)]"
    using m none
    by (cases rule: Get_metric_outcomes [of r1 env name lbls family args]) auto
  moreover have "map_of (families r') (std_hash env name) = Some family"
    using Get_family_keeps(1) [OF f] Get_metric_keeps(2) [OF m] by simp
  ultimately show ?thesis
    using Get_family_keeps(4) [OF f] by simp
qed

text \<open>The first block, by what it finds and what the registration does.\<close>

lemma Get_family_decided:
  "Get_family env r name =
     (case map_of (families r) (std_hash env name) of
        Some family \<Rightarrow> Inr (r, family)
      | None \<Rightarrow>
          (case Register_throws env (registry r) (proto_name env name) of
             Some e \<Rightarrow> Inl e
           | None \<Rightarrow>
               Inr (r\<lparr>families :=
                        families r @ [(std_hash env name, length (registered (registry r)))],
                      registry := (registry r)\<lparr>registered :=
                        registered (registry r) @ [proto_name env name]\<rparr>\<rparr>,
                    length (registered (registry r)))))"
  by (cases rule: Get_family_outcomes [of r env name]) simp_all

lemma Get_metric_decided:
  assumes "Get_metric env r1 family name lbls args = (r', res)"
  shows "(registry r')\<lparr>added := added (registry r1)\<rparr> = registry r1"
    and "case map_of (metrics r1) (hash_name_and_labels env name lbls) of
        Some metric \<Rightarrow>
          res = Inr metric \<and> metrics r' = metrics r1 \<and>
          added (registry r') = added (registry r1)
      | None \<Rightarrow>
          (case Add_throws env (registry r1) family (parse_labels env lbls []) args of
             Some e \<Rightarrow>
               res = Inl e \<and> metrics r' = metrics r1 \<and>
               added (registry r') = added (registry r1)
           | None \<Rightarrow>
               res = Inr (length (added (registry r1))) \<and>
               metrics r' =
                 metrics r1 @
                   [(hash_name_and_labels env name lbls, length (added (registry r1)))] \<and>
               added (registry r') =
                 added (registry r1) @ [(family, parse_labels env lbls [], args)])"
proof -
  show "(registry r')\<lparr>added := added (registry r1)\<rparr> = registry r1"
    using assms
    by (cases rule: Get_metric_outcomes [of r1 env name lbls family args]) auto
  show "case map_of (metrics r1) (hash_name_and_labels env name lbls) of
        Some metric \<Rightarrow>
          res = Inr metric \<and> metrics r' = metrics r1 \<and>
          added (registry r') = added (registry r1)
      | None \<Rightarrow>
          (case Add_throws env (registry r1) family (parse_labels env lbls []) args of
             Some e \<Rightarrow>
               res = Inl e \<and> metrics r' = metrics r1 \<and>
               added (registry r') = added (registry r1)
           | None \<Rightarrow>
               res = Inr (length (added (registry r1))) \<and>
               metrics r' =
                 metrics r1 @
                   [(hash_name_and_labels env name lbls, length (added (registry r1)))] \<and>
               added (registry r') =
                 added (registry r1) @ [(family, parse_labels env lbls [], args)])"
    using assms
    by (cases rule: Get_metric_outcomes [of r1 env name lbls family args]) auto
qed

section \<open>Registries between calls\<close>

lemma consistent_new: "consistent new_registry"
  by (simp add: consistent_def new_registry_def)

lemma consistent_Get_family:
  assumes "consistent r" and "Get_family env r name = Inr (r1, family)"
  shows "consistent r1"
  using assms
  by (cases rule: Get_family_outcomes [of r env name])
     (auto simp: consistent_def map_of_eq_None_iff)

lemma consistent_Get_metric:
  assumes "consistent r" and "Get_metric env r family name lbls args = (r', res)"
  shows "consistent r'"
  using assms
  by (cases rule: Get_metric_outcomes [of r env name lbls family args])
     (auto simp: consistent_def map_of_eq_None_iff)

lemma consistent_Get:
  assumes "consistent r" and "Get env r name lbls args = (r', res)"
  shows "consistent r'"
proof (cases rule: Get_blocks [of env r name lbls args])
  case (family_throws e)
  with assms show ?thesis by simp
next
  case (family_found r1 family)
  then show ?thesis
    using assms consistent_Get_family consistent_Get_metric by metis
qed

lemma consistent_Gets: "consistent r \<Longrightarrow> consistent (Gets env r calls)"
proof (induction calls arbitrary: r)
  case Nil
  then show ?case by simp
next
  case (Cons c calls)
  obtain name lbls args where c: "c = (name, lbls, args)" by (cases c)
  obtain r' res where g: "Get env r name lbls args = (r', res)" by force
  have "consistent r'"
    using consistent_Get [OF Cons.prems g] .
  then show ?case
    using Cons.IH [of r'] by (simp add: c g)
qed


lemma consistent_sizes:
  assumes "consistent r"
  shows "SizeFamilies r = card (fst ` set (families r))"
    and "SizeMetrics r = card (fst ` set (metrics r))"
    and "SizeFamilies r = length (registered (registry r))"
    and "SizeMetrics r = length (added (registry r))"
proof -
  have d: "distinct (map fst (families r))" "distinct (map fst (metrics r))"
    and h: "map snd (families r) = [0..<length (registered (registry r))]"
      "map snd (metrics r) = [0..<length (added (registry r))]"
    using assms by (simp_all add: consistent_def)
  show "SizeFamilies r = card (fst ` set (families r))"
    using distinct_card [OF d(1)] by (simp add: SizeFamilies_def)
  show "SizeMetrics r = card (fst ` set (metrics r))"
    using distinct_card [OF d(2)] by (simp add: SizeMetrics_def)
  show "SizeFamilies r = length (registered (registry r))"
    using arg_cong [OF h(1), of length] by (simp add: SizeFamilies_def)
  show "SizeMetrics r = length (added (registry r))"
    using arg_cong [OF h(2), of length] by (simp add: SizeMetrics_def)
qed



lemma subset_step: "G \<subseteq> A' \<union> C \<Longrightarrow> A' \<subseteq> insert k A \<Longrightarrow> G \<subseteq> A \<union> insert k C"
  by blast

lemma union_step: "G = A' \<union> C \<Longrightarrow> A' = insert k A \<Longrightarrow> G = A \<union> insert k C"
  by blast

lemma Gets_family_keys_subset:
  "fst ` set (families (Gets env r calls)) \<subseteq>
     fst ` set (families r) \<union> std_hash env ` fst ` set calls"
proof (induction calls arbitrary: r)
  case Nil
  show ?case by simp
next
  case (Cons c calls)
  obtain name lbls args where c: "c = (name, lbls, args)" by (cases c)
  obtain r' res where g: "Get env r name lbls args = (r', res)" by force
  have sub: "fst ` set (families r') \<subseteq> insert (std_hash env name) (fst ` set (families r))"
    using Get_changes(1) [OF g] by (elim disjE) (simp_all add: subset_insertI)
  have "fst ` set (families (Gets env r' calls)) \<subseteq>
      fst ` set (families r) \<union> insert (std_hash env name) (std_hash env ` fst ` set calls)"
    using Cons.IH [of r'] sub by (rule subset_step)
  then show ?case
    by (simp add: c g)
qed

lemma Gets_metric_keys_subset:
  "fst ` set (metrics (Gets env r calls)) \<subseteq>
     fst ` set (metrics r) \<union> (\<lambda>(name, lbls, args). hash_name_and_labels env name lbls) ` set calls"
proof (induction calls arbitrary: r)
  case Nil
  show ?case by simp
next
  case (Cons c calls)
  obtain name lbls args where c: "c = (name, lbls, args)" by (cases c)
  obtain r' res where g: "Get env r name lbls args = (r', res)" by force
  have sub: "fst ` set (metrics r') \<subseteq>
      insert (hash_name_and_labels env name lbls) (fst ` set (metrics r))"
    using Get_changes(2) [OF g] by (elim disjE) (simp_all add: subset_insertI)
  have "fst ` set (metrics (Gets env r' calls)) \<subseteq>
      fst ` set (metrics r) \<union> insert (hash_name_and_labels env name lbls)
        ((\<lambda>(name, lbls, args). hash_name_and_labels env name lbls) ` set calls)"
    using Cons.IH [of r'] sub by (rule subset_step)
  then show ?case
    by (simp add: c g)
qed

lemma Gets_family_keys_no_throw:
  assumes "\<forall>b n. Register_throws env b n = None"
    and "\<forall>b f l a. Add_throws env b f l a = None"
  shows "fst ` set (families (Gets env r calls)) =
     fst ` set (families r) \<union> std_hash env ` fst ` set calls"
proof (induction calls arbitrary: r)
  case Nil
  show ?case by simp
next
  case (Cons c calls)
  obtain name lbls args where c: "c = (name, lbls, args)" by (cases c)
  obtain r' metric where g: "Get env r name lbls args = (r', Inr metric)"
    using Get_succeeds [OF assms] by blast
  have "fst ` set (families (Gets env r' calls)) =
      fst ` set (families r) \<union> insert (std_hash env name) (std_hash env ` fst ` set calls)"
    using Cons.IH [of r'] Get_keys(1) [OF g] by (rule union_step)
  then show ?case
    by (simp add: c g)
qed

lemma Gets_metric_keys_no_throw:
  assumes "\<forall>b n. Register_throws env b n = None"
    and "\<forall>b f l a. Add_throws env b f l a = None"
  shows "fst ` set (metrics (Gets env r calls)) =
     fst ` set (metrics r) \<union> (\<lambda>(name, lbls, args). hash_name_and_labels env name lbls) ` set calls"
proof (induction calls arbitrary: r)
  case Nil
  show ?case by simp
next
  case (Cons c calls)
  obtain name lbls args where c: "c = (name, lbls, args)" by (cases c)
  obtain r' metric where g: "Get env r name lbls args = (r', Inr metric)"
    using Get_succeeds [OF assms] by blast
  have "fst ` set (metrics (Gets env r' calls)) =
      fst ` set (metrics r) \<union> insert (hash_name_and_labels env name lbls)
        ((\<lambda>(name, lbls, args). hash_name_and_labels env name lbls) ` set calls)"
    using Cons.IH [of r'] Get_keys(2) [OF g] by (rule union_step)
  then show ?case
    by (simp add: c g)
qed

section \<open>C1: repeated calls\<close>




section \<open>C2: distinct label mappings\<close>




section \<open>C3: two names of one constant\<close>

text \<open>
  C3. Two distinct raw names that parse to the same \<^verbatim>\<open>MetricName\<close> constant, with distinct
  hashes and neither cached yet: a successful call with each leaves two more entries in
  the family cache, one under each raw name's hash, and the backend has registered the
  decimal string of the constant twice.
\<close>

theorem Get_aliases_register_twice:
  assumes "n1 \<noteq> n2"
    and "MetricName_Parse env n1 = Some c" and "MetricName_Parse env n2 = Some c"
    and "std_hash env n1 \<noteq> std_hash env n2"
    and "map_of (families r) (std_hash env n1) = None"
    and "map_of (families r) (std_hash env n2) = None"
    and "Get env r n1 lbls1 args1 = (r1, Inr m1)"
    and "Get env r1 n2 lbls2 args2 = (r2, Inr m2)"
  shows "families r2 =
           families r @ [(std_hash env n1, length (registered (registry r))),
                         (std_hash env n2, Suc (length (registered (registry r))))] \<and>
         registered (registry r2) = registered (registry r) @ [to_string c, to_string c] \<and>
         SizeFamilies r2 = SizeFamilies r + 2"
proof -
  have pn: "proto_name env n1 = to_string c" "proto_name env n2 = to_string c"
    using assms(2,3) by (simp_all add: proto_name_def)
  note first = Get_family_miss_registers [OF assms(5,7)]
  have "map_of (families r1) (std_hash env n2) = None"
    using first(1) assms(4,6) by (simp add: map_add_def)
  note second = Get_family_miss_registers [OF this assms(8)]
  show ?thesis
    using first second pn by (simp add: SizeFamilies_def)
qed

theorem Get_aliases_register_twice_witness:
  "''requests_total'' \<noteq> ''requests'' \<and>
   MetricName_Parse example_collaborators ''requests_total'' = Some 7 \<and>
   MetricName_Parse example_collaborators ''requests'' = Some 7 \<and>
   std_hash example_collaborators ''requests_total'' \<noteq> std_hash example_collaborators ''requests'' \<and>
   Get example_collaborators new_registry ''requests_total'' [] [1] =
     (fst (Get example_collaborators new_registry ''requests_total'' [] [1]), Inr 0) \<and>
   Get example_collaborators (fst (Get example_collaborators new_registry ''requests_total'' [] [1]))
      ''requests'' [] [1] =
     (\<lparr>families = [(poly_hash ''requests_total'', 0), (poly_hash ''requests'', 1)],
       metrics = [(poly_hash ''requests_total'', 0), (poly_hash ''requests'', 1)],
       registry = \<lparr>registered = [''7'', ''7''], added = [(0, [], [1]), (1, [], [1])]\<rparr>\<rparr>, Inr 1) \<and>
   registered (registry \<lparr>families = [(poly_hash ''requests_total'', 0), (poly_hash ''requests'', 1)],
       metrics = [(poly_hash ''requests_total'', 0), (poly_hash ''requests'', 1)],
       registry = \<lparr>registered = [''7'', ''7''],
         added = [(0, [], [1 :: nat]), (1, [], [1])]\<rparr>\<rparr>) =
     registered (registry (new_registry :: nat list MetricsRegistry)) @ [to_string 7, to_string 7]"
proof -
  let ?r2 = "\<lparr>families = [(poly_hash ''requests_total'', 0), (poly_hash ''requests'', 1)],
       metrics = [(poly_hash ''requests_total'', 0), (poly_hash ''requests'', 1)],
       registry = \<lparr>registered = [''7'', ''7''],
         added = [(0, [], [1 :: nat]), (1, [], [1])]\<rparr>\<rparr>"
  have h1: "''requests_total'' \<noteq> ''requests''" by simp
  have h2: "MetricName_Parse example_collaborators ''requests_total'' = Some 7" by code_simp
  have h3: "MetricName_Parse example_collaborators ''requests'' = Some 7" by code_simp
  have h4: "std_hash example_collaborators ''requests_total'' \<noteq>
      std_hash example_collaborators ''requests''" by code_simp
  have h5: "map_of (families (new_registry :: nat list MetricsRegistry))
      (std_hash example_collaborators ''requests_total'') = None"
    by (simp add: new_registry_def)
  have h6: "map_of (families (new_registry :: nat list MetricsRegistry))
      (std_hash example_collaborators ''requests'') = None"
    by (simp add: new_registry_def)
  have h7: "Get example_collaborators new_registry ''requests_total'' [] [1] =
     (fst (Get example_collaborators new_registry ''requests_total'' [] [1]), Inr 0)"
    by code_simp
  have h8: "Get example_collaborators
      (fst (Get example_collaborators new_registry ''requests_total'' [] [1]))
      ''requests'' [] [1] = (?r2, Inr 1)"
    by code_simp
  show ?thesis
    using Get_aliases_register_twice [OF h1 h2 h3 h4 h5 h6 h7 h8] h1 h2 h3 h4 h7 h8
    by (intro conjI) simp_all
qed

section \<open>C4: the lookup keys\<close>

text \<open>
  C4. A caller supplies the pairs \<open>kvs\<close>, each key once, in any order. Whatever the
  call returns: when the hash of the raw name is cached as a family key, and the hash of
  the raw name followed by every raw label name and value in ascending key order is cached
  as an instance key, the call returns the metric cached there and changes nothing; and
  the call adds no other keys than these two. After a call that returned a metric, the
  family and the metric are cached under these keys, and the call has left the registry as
  it was exactly when both keys were cached before. The same pairs inserted in another
  order give the same mapping and the same instance key.
\<close>

theorem Get_lookup_keys:
  assumes "distinct (map fst kvs)"
    and "Get env r name (inserted kvs []) args = (r', res)"
  shows
   "(\<forall>family metric.
       map_of (families r) (spec_family_key env name) = Some family \<and>
       map_of (metrics r) (spec_instance_key env name kvs) = Some metric \<longrightarrow>
       r' = r \<and> res = Inr metric) \<and>
    fst ` set (families r') \<subseteq> insert (spec_family_key env name) (fst ` set (families r)) \<and>
    fst ` set (metrics r') \<subseteq> insert (spec_instance_key env name kvs) (fst ` set (metrics r)) \<and>
    (\<forall>metric. res = Inr metric \<longrightarrow>
       (\<exists>family. map_of (families r') (spec_family_key env name) = Some family) \<and>
       map_of (metrics r') (spec_instance_key env name kvs) = Some metric \<and>
       fst ` set (families r') = insert (spec_family_key env name) (fst ` set (families r)) \<and>
       fst ` set (metrics r') = insert (spec_instance_key env name kvs) (fst ` set (metrics r)) \<and>
       (r' = r) = (spec_family_key env name \<in> fst ` set (families r) \<and>
                   spec_instance_key env name kvs \<in> fst ` set (metrics r))) \<and>
    (\<forall>kvs'. distinct (map fst kvs') \<and> set kvs' = set kvs \<longrightarrow>
       inserted kvs' [] = inserted kvs [] \<and>
       spec_instance_key env name kvs' = spec_instance_key env name kvs)"
proof -
  note key = instance_key_inserted [OF assms(1), of env name]
  have hit: "r' = r \<and> res = Inr metric"
    if "map_of (families r) (spec_family_key env name) = Some family"
      and "map_of (metrics r) (spec_instance_key env name kvs) = Some metric" for family metric
    using Get_hit [of r env name family "inserted kvs []" metric args] that assms(2)
    unfolding key spec_family_key_def by simp
  have sub: "fst ` set (families r') \<subseteq> insert (spec_family_key env name) (fst ` set (families r))"
    "fst ` set (metrics r') \<subseteq> insert (spec_instance_key env name kvs) (fst ` set (metrics r))"
    using Get_keys_subset [OF assms(2)] unfolding key spec_family_key_def by simp_all
  have ok: "(\<exists>family. map_of (families r') (spec_family_key env name) = Some family) \<and>
       map_of (metrics r') (spec_instance_key env name kvs) = Some metric \<and>
       fst ` set (families r') = insert (spec_family_key env name) (fst ` set (families r)) \<and>
       fst ` set (metrics r') = insert (spec_instance_key env name kvs) (fst ` set (metrics r)) \<and>
       (r' = r) = (spec_family_key env name \<in> fst ` set (families r) \<and>
                   spec_instance_key env name kvs \<in> fst ` set (metrics r))"
    if "res = Inr metric" for metric
  proof -
    have g: "Get env r name (inserted kvs []) args = (r', Inr metric)"
      using assms(2) that by simp
    show ?thesis
      using Get_cached [OF g] Get_keys [OF g] unfolding key spec_family_key_def by simp
  qed
  have free: "inserted kvs' [] = inserted kvs [] \<and>
       spec_instance_key env name kvs' = spec_instance_key env name kvs"
    if "distinct (map fst kvs')" and "set kvs' = set kvs" for kvs'
    using instance_key_inserted [OF that(1), of env name] key
      inserted_order_free [OF assms(1) that] by simp
  show ?thesis
  proof (intro conjI allI impI)
    fix family metric
    assume "map_of (families r) (spec_family_key env name) = Some family \<and>
       map_of (metrics r) (spec_instance_key env name kvs) = Some metric"
    then show "r' = r" and "res = Inr metric"
      using hit [of family metric] by simp_all
  next
    fix kvs'
    assume "distinct (map fst kvs') \<and> set kvs' = set kvs"
    then show "inserted kvs' [] = inserted kvs []"
      and "spec_instance_key env name kvs' = spec_instance_key env name kvs"
      using free [of kvs'] by simp_all
  qed (use sub ok in simp_all)
qed

theorem Get_lookup_keys_witness:
  "distinct (map fst [(''method'', ''GET''), (''code'', ''200'')]) \<and>
   Get example_collaborators new_registry ''requests_total''
      (inserted [(''method'', ''GET''), (''code'', ''200'')] []) [1] =
     (fst (Get example_collaborators new_registry ''requests_total''
        [(''code'', ''200''), (''method'', ''GET'')] [1]), Inr 0) \<and>
   map_of (metrics (fst (Get example_collaborators new_registry ''requests_total''
        [(''code'', ''200''), (''method'', ''GET'')] [1])))
     (spec_instance_key example_collaborators ''requests_total''
        [(''method'', ''GET''), (''code'', ''200'')]) = Some 0 \<and>
   map_of (families (fst (Get example_collaborators new_registry ''requests_total''
        [(''code'', ''200''), (''method'', ''GET'')] [1])))
     (spec_family_key example_collaborators ''requests_total'') = Some 0 \<and>
   Get example_collaborators
      (fst (Get example_collaborators new_registry ''requests_total''
        [(''code'', ''200''), (''method'', ''GET'')] [1]))
      ''requests_total'' (inserted [(''method'', ''GET''), (''code'', ''200'')] []) [9] =
     (fst (Get example_collaborators new_registry ''requests_total''
        [(''code'', ''200''), (''method'', ''GET'')] [1]), Inr 0) \<and>
   inserted [(''code'', ''200''), (''method'', ''GET'')] [] =
     inserted [(''method'', ''GET''), (''code'', ''200'')] [] \<and>
   spec_instance_key example_collaborators ''requests_total''
        [(''code'', ''200''), (''method'', ''GET'')] =
     spec_instance_key example_collaborators ''requests_total''
        [(''method'', ''GET''), (''code'', ''200'')]"
proof -
  let ?kvs = "[(''method'', ''GET''), (''code'', ''200'')]"
  let ?r1 = "fst (Get example_collaborators new_registry ''requests_total''
        [(''code'', ''200''), (''method'', ''GET'')] [1])"
  have h1: "distinct (map fst ?kvs)"
    by simp
  have h2: "Get example_collaborators new_registry ''requests_total'' (inserted ?kvs []) [1] =
     (?r1, Inr 0)"
    by code_simp
  have h3: "distinct (map fst [(''code'', ''200''), (''method'', ''GET'')]) \<and>
     set [(''code'', ''200''), (''method'', ''GET'')] = set ?kvs"
    by auto
  note keys = Get_lookup_keys [OF h1 h2]
  note cached = keys [THEN conjunct2, THEN conjunct2, THEN conjunct2, THEN conjunct1,
    rule_format, OF refl]
  note order_free = keys [THEN conjunct2, THEN conjunct2, THEN conjunct2, THEN conjunct2,
    rule_format, OF h3]
  have f: "map_of (families ?r1) (spec_family_key example_collaborators ''requests_total'') =
      Some 0"
    by code_simp
  have again: "Get example_collaborators ?r1 ''requests_total'' (inserted ?kvs []) [9] =
      (fst (Get example_collaborators ?r1 ''requests_total'' (inserted ?kvs []) [9]),
       snd (Get example_collaborators ?r1 ''requests_total'' (inserted ?kvs []) [9]))"
    by simp
  note hit = Get_lookup_keys [OF h1 again, THEN conjunct1, rule_format,
    OF conjI [OF f cached [THEN conjunct2, THEN conjunct1]]]
  have "Get example_collaborators ?r1 ''requests_total'' (inserted ?kvs []) [9] = (?r1, Inr 0)"
    using hit by (simp add: prod_eq_iff)
  then show ?thesis
    using h1 h2 cached [THEN conjunct2, THEN conjunct1] f order_free by (intro conjI) simp_all
qed

section \<open>C5: the name registered\<close>

text \<open>
  C5. A call that does not find the family of its name cached, as the first call with a
  name on a new registry, and returns a metric, registers one family: under the decimal
  string of the enum constant when the name parses as a \<^verbatim>\<open>MetricName\<close>, under the raw name
  otherwise. The family is cached under the hash of the raw name.
\<close>

theorem Get_registers_canonical_name:
  assumes "map_of (families r) (std_hash env name) = None"
    and "Get env r name lbls args = (r', Inr metric)"
  shows "registered (registry r') =
           registered (registry r) @
             [case MetricName_Parse env name of Some name_value \<Rightarrow> to_string name_value
              | None \<Rightarrow> name] \<and>
         map_of (families r') (std_hash env name) = Some (length (registered (registry r)))"
  using Get_family_miss_registers [OF assms] assms(1)
  by (simp add: proto_name_def map_add_def)

theorem Get_registers_canonical_name_witness:
  "map_of (families (new_registry :: nat list MetricsRegistry))
      (std_hash example_collaborators ''requests_total'') = None \<and>
   Get example_collaborators new_registry ''requests_total'' [(''method'', ''GET'')] [1] =
     (fst (Get example_collaborators new_registry ''requests_total'' [(''method'', ''GET'')] [1]),
      Inr 0) \<and>
   registered (registry (fst (Get example_collaborators new_registry ''requests_total''
      [(''method'', ''GET'')] [1]))) = [''7''] \<and>
   map_of (families (Gets example_collaborators new_registry
      [(''requests_total'', [], [1])])) (std_hash example_collaborators ''up'') = None \<and>
   Get example_collaborators (Gets example_collaborators new_registry
      [(''requests_total'', [], [1])]) ''up'' [] [1] =
     (fst (Get example_collaborators (Gets example_collaborators new_registry
        [(''requests_total'', [], [1])]) ''up'' [] [1]), Inr 1) \<and>
   registered (registry (fst (Get example_collaborators (Gets example_collaborators new_registry
        [(''requests_total'', [], [1])]) ''up'' [] [1]))) = [''7'', ''up'']"
proof -
  have h1: "map_of (families (new_registry :: nat list MetricsRegistry))
      (std_hash example_collaborators ''requests_total'') = None"
    by (simp add: new_registry_def)
  have h2: "Get example_collaborators new_registry ''requests_total'' [(''method'', ''GET'')] [1] =
     (fst (Get example_collaborators new_registry ''requests_total'' [(''method'', ''GET'')] [1]),
      Inr 0)"
    by code_simp
  have p1: "MetricName_Parse example_collaborators ''requests_total'' = Some 7"
    by code_simp
  have s7: "to_string 7 = ''7''"
    by code_simp
  have h3: "map_of (families (Gets example_collaborators new_registry
      [(''requests_total'', [], [1])])) (std_hash example_collaborators ''up'') = None"
    by code_simp
  have h4: "Get example_collaborators (Gets example_collaborators new_registry
      [(''requests_total'', [], [1])]) ''up'' [] [1] =
     (fst (Get example_collaborators (Gets example_collaborators new_registry
        [(''requests_total'', [], [1])]) ''up'' [] [1]), Inr 1)"
    by code_simp
  have p2: "MetricName_Parse example_collaborators ''up'' = None"
    by code_simp
  have before: "registered (registry (Gets example_collaborators new_registry
      [(''requests_total'', [], [1])])) = [''7'']"
    by code_simp
  have "registered (registry (fst (Get example_collaborators new_registry ''requests_total''
      [(''method'', ''GET'')] [1]))) = [''7'']"
    using Get_registers_canonical_name [OF h1 h2] p1 s7 by (simp add: new_registry_def)
  moreover have "registered (registry (fst (Get example_collaborators
        (Gets example_collaborators new_registry [(''requests_total'', [], [1])])
        ''up'' [] [1]))) = [''7'', ''up'']"
    using Get_registers_canonical_name [OF h3 h4] p2 before by simp
  ultimately show ?thesis
    using h1 h2 h3 h4 by (intro conjI)
qed

section \<open>C6: the labels given to the family\<close>

text \<open>
  C6, as the code has it. A call that misses the instance cache and returns a metric adds
  one instance to the family of the name, with the construction arguments of the call and
  the mapping built by \<^verbatim>\<open>parse_labels\<close>. The label names of that mapping are the
  canonical forms of the recognized raw names and the unrecognized raw names themselves;
  every pair of it has the value of a raw pair with that name, unchanged; and when the
  normalized names are pairwise distinct every raw pair is there under its normalized
  name.
\<close>

theorem Get_adds_normalized_labels:
  assumes "Get env r name lbls args = (r', Inr metric)"
    and "map_of (metrics r) (hash_name_and_labels env name lbls) = None"
  shows "\<exists>family converted_labels.
      map_of (families r') (std_hash env name) = Some family \<and>
      added (registry r') = added (registry r) @ [(family, converted_labels, args)] \<and>
      fst ` set converted_labels =
        (\<lambda>raw. case MetricLabelName_Parse env raw of Some c \<Rightarrow> to_string c | None \<Rightarrow> raw) `
          fst ` set lbls \<and>
      (\<forall>(k', v) \<in> set converted_labels.
          \<exists>k. (k, v) \<in> set lbls \<and>
            k' = (case MetricLabelName_Parse env k of Some c \<Rightarrow> to_string c | None \<Rightarrow> k)) \<and>
      (distinct (map (\<lambda>p. label_name env (fst p)) lbls) \<longrightarrow>
         set converted_labels = (\<lambda>p. (label_name env (fst p), snd p)) ` set lbls)"
proof -
  from Get_miss_added [OF assms] obtain family
    where "map_of (families r') (std_hash env name) = Some family"
      and "added (registry r') = added (registry r) @ [(family, parse_labels env lbls [], args)]"
    by blast
  moreover have "fst ` set (parse_labels env lbls []) =
        (\<lambda>raw. case MetricLabelName_Parse env raw of Some c \<Rightarrow> to_string c | None \<Rightarrow> raw) `
          fst ` set lbls"
    using keys_parse_labels [of env lbls] by (simp add: label_name_def [abs_def])
  moreover have "\<forall>(k', v) \<in> set (parse_labels env lbls []).
          \<exists>k. (k, v) \<in> set lbls \<and>
            k' = (case MetricLabelName_Parse env k of Some c \<Rightarrow> to_string c | None \<Rightarrow> k)"
    using parse_labels_values [of _ _ env lbls] unfolding label_name_def by fast
  ultimately show ?thesis
    using parse_labels_all_pairs [of env lbls]
    by (intro exI [of _ family] exI [of _ "parse_labels env lbls []"]) simp
qed

theorem Get_adds_normalized_labels_witness:
  "Get example_collaborators new_registry ''requests_total''
      [(''http_method'', ''GET''), (''zone'', ''eu'')] [1] =
     (fst (Get example_collaborators new_registry ''requests_total''
        [(''http_method'', ''GET''), (''zone'', ''eu'')] [1]), Inr 0) \<and>
   map_of (metrics (new_registry :: nat list MetricsRegistry))
     (hash_name_and_labels example_collaborators ''requests_total''
        [(''http_method'', ''GET''), (''zone'', ''eu'')]) = None \<and>
   distinct (map (\<lambda>p. label_name example_collaborators (fst p))
      [(''http_method'', ''GET''), (''zone'', ''eu'')]) \<and>
   added (registry (fst (Get example_collaborators new_registry ''requests_total''
        [(''http_method'', ''GET''), (''zone'', ''eu'')] [1]))) =
     [(0, [(''3'', ''GET''), (''zone'', ''eu'')], [1])] \<and>
   set [(''3'', ''GET''), (''zone'', ''eu'')] =
     (\<lambda>p. (label_name example_collaborators (fst p), snd p)) `
        set [(''http_method'', ''GET''), (''zone'', ''eu'')]"
proof -
  have h1: "Get example_collaborators new_registry ''requests_total''
      [(''http_method'', ''GET''), (''zone'', ''eu'')] [1] =
     (fst (Get example_collaborators new_registry ''requests_total''
        [(''http_method'', ''GET''), (''zone'', ''eu'')] [1]), Inr 0)"
    by code_simp
  have h2: "map_of (metrics (new_registry :: nat list MetricsRegistry))
     (hash_name_and_labels example_collaborators ''requests_total''
        [(''http_method'', ''GET''), (''zone'', ''eu'')]) = None"
    by (simp add: new_registry_def)
  have h3: "distinct (map (\<lambda>p. label_name example_collaborators (fst p))
      [(''http_method'', ''GET''), (''zone'', ''eu'')])"
    by code_simp
  have v: "added (registry (fst (Get example_collaborators new_registry ''requests_total''
        [(''http_method'', ''GET''), (''zone'', ''eu'')] [1]))) =
     [(0, [(''3'', ''GET''), (''zone'', ''eu'')], [1])]"
    by code_simp
  from Get_adds_normalized_labels [OF h1 h2] obtain family converted_labels
    where a: "added (registry (fst (Get example_collaborators new_registry ''requests_total''
        [(''http_method'', ''GET''), (''zone'', ''eu'')] [1]))) =
        added (registry (new_registry :: nat list MetricsRegistry)) @
          [(family, converted_labels, [1])]"
      and s: "distinct (map (\<lambda>p. label_name example_collaborators (fst p))
          [(''http_method'', ''GET''), (''zone'', ''eu'')]) \<longrightarrow>
        set converted_labels =
          (\<lambda>p. (label_name example_collaborators (fst p), snd p)) `
            set [(''http_method'', ''GET''), (''zone'', ''eu'')]"
    by (elim exE conjE)
  have "converted_labels = [(''3'', ''GET''), (''zone'', ''eu'')]"
    using a v by (simp add: new_registry_def)
  with s h3 have "set [(''3'', ''GET''), (''zone'', ''eu'')] =
     (\<lambda>p. (label_name example_collaborators (fst p), snd p)) `
        set [(''http_method'', ''GET''), (''zone'', ''eu'')]"
    by simp
  with h1 h2 h3 v show ?thesis
    by (intro conjI)
qed

text \<open>
  The claim states that every label value is passed through. With \<open>http_method\<close> and
  \<open>method\<close> both names of the label constant 3, the mapping given to the family has the
  one pair of \<open>3\<close> with \<open>GET\<close>: the value \<open>POST\<close> is not passed.
\<close>

theorem label_value_not_passed:
  "std_map [(''http_method'', ''GET''), (''method'', ''POST'')] \<and>
   map_of (metrics (new_registry :: nat list MetricsRegistry))
     (hash_name_and_labels example_collaborators ''requests_total''
        [(''http_method'', ''GET''), (''method'', ''POST'')]) = None \<and>
   Get example_collaborators new_registry ''requests_total''
      [(''http_method'', ''GET''), (''method'', ''POST'')] [1] =
     (\<lparr>families = [(poly_hash ''requests_total'', 0)],
       metrics = [(poly_hash ''requests_totalhttp_methodGETmethodPOST'', 0)],
       registry = \<lparr>registered = [''7''], added = [(0, [(''3'', ''GET'')], [1])]\<rparr>\<rparr>, Inr 0) \<and>
   ''POST'' \<notin> snd ` set [(''3'', ''GET'')]"
  by code_simp

section \<open>C7: the sizes\<close>

text \<open>
  C7. After any sequence of calls on a new registry, \<^verbatim>\<open>SizeFamilies\<close> and \<^verbatim>\<open>SizeMetrics\<close>
  are the numbers of distinct keys in the two caches, which are the numbers of families
  and instances the backend constructed; the keys are keys of calls made, and when the
  backend never throws they are the keys of all calls made, counted once however often a
  call was repeated. A further call removes no key and lowers neither size.
\<close>

theorem Size_counts_created_keys:
  assumes "r = Gets env new_registry calls"
  shows "SizeFamilies r = card (fst ` set (families r)) \<and>
    SizeMetrics r = card (fst ` set (metrics r)) \<and>
    SizeFamilies r = length (registered (registry r)) \<and>
    SizeMetrics r = length (added (registry r)) \<and>
    fst ` set (families r) \<subseteq> std_hash env ` fst ` set calls \<and>
    fst ` set (metrics r) \<subseteq>
      (\<lambda>(name, lbls, args). hash_name_and_labels env name lbls) ` set calls \<and>
    ((\<forall>b n. Register_throws env b n = None) \<and> (\<forall>b f l a. Add_throws env b f l a = None) \<longrightarrow>
       SizeFamilies r = card (std_hash env ` fst ` set calls) \<and>
       SizeMetrics r =
         card ((\<lambda>(name, lbls, args). hash_name_and_labels env name lbls) ` set calls)) \<and>
    SizeFamilies r \<le> SizeFamilies (fst (Get env r name lbls args)) \<and>
    SizeMetrics r \<le> SizeMetrics (fst (Get env r name lbls args)) \<and>
    fst ` set (families r) \<subseteq> fst ` set (families (fst (Get env r name lbls args))) \<and>
    fst ` set (metrics r) \<subseteq> fst ` set (metrics (fst (Get env r name lbls args)))"
proof -
  have c: "consistent r"
    unfolding assms by (rule consistent_Gets [OF consistent_new])
  note sizes = consistent_sizes [OF c]
  have sub: "fst ` set (families r) \<subseteq> std_hash env ` fst ` set calls"
    "fst ` set (metrics r) \<subseteq>
      (\<lambda>(name, lbls, args). hash_name_and_labels env name lbls) ` set calls"
    using Gets_family_keys_subset [of env new_registry calls]
      Gets_metric_keys_subset [of env new_registry calls]
    unfolding assms by (simp_all add: new_registry_def)
  have eq: "SizeFamilies r = card (std_hash env ` fst ` set calls) \<and>
       SizeMetrics r =
         card ((\<lambda>(name, lbls, args). hash_name_and_labels env name lbls) ` set calls)"
    if "\<forall>b n. Register_throws env b n = None" and "\<forall>b f l a. Add_throws env b f l a = None"
    using Gets_family_keys_no_throw [OF that, of new_registry calls]
      Gets_metric_keys_no_throw [OF that, of new_registry calls] sizes(1,2)
    unfolding assms by (simp add: new_registry_def)
  obtain r' res where g: "Get env r name lbls args = (r', res)" by force
  have mono: "SizeFamilies r \<le> SizeFamilies r'" "SizeMetrics r \<le> SizeMetrics r'"
    "fst ` set (families r) \<subseteq> fst ` set (families r')"
    "fst ` set (metrics r) \<subseteq> fst ` set (metrics r')"
    using Get_changes [OF g] by (auto simp: SizeFamilies_def SizeMetrics_def)
  show ?thesis
    using sizes sub eq mono by (simp add: g)
qed

theorem Size_counts_created_keys_witness:
  "(\<forall>b n. Register_throws accepting_collaborators b n = None) \<and>
   (\<forall>b f l a. Add_throws accepting_collaborators b f l a = None) \<and>
   SizeFamilies (Gets accepting_collaborators new_registry
        [(''requests_total'', [(''method'', ''GET'')], [1]),
         (''requests_total'', [(''method'', ''GET'')], [2]),
         (''requests_total'', [(''method'', ''POST'')], [1])]) =
     card (std_hash accepting_collaborators ` fst ` set
        [(''requests_total'', [(''method'', ''GET'')], [1 :: nat]),
         (''requests_total'', [(''method'', ''GET'')], [2]),
         (''requests_total'', [(''method'', ''POST'')], [1])]) \<and>
   SizeFamilies (Gets accepting_collaborators new_registry
        [(''requests_total'', [(''method'', ''GET'')], [1]),
         (''requests_total'', [(''method'', ''GET'')], [2]),
         (''requests_total'', [(''method'', ''POST'')], [1])]) = 1 \<and>
   SizeMetrics (Gets accepting_collaborators new_registry
        [(''requests_total'', [(''method'', ''GET'')], [1]),
         (''requests_total'', [(''method'', ''GET'')], [2]),
         (''requests_total'', [(''method'', ''POST'')], [1])]) = 2 \<and>
   SizeMetrics (Gets accepting_collaborators new_registry
        [(''requests_total'', [(''method'', ''GET'')], [1]),
         (''requests_total'', [(''method'', ''GET'')], [2]),
         (''requests_total'', [(''method'', ''POST'')], [1])]) \<le>
     SizeMetrics (fst (Get accepting_collaborators
        (Gets accepting_collaborators new_registry
          [(''requests_total'', [(''method'', ''GET'')], [1]),
           (''requests_total'', [(''method'', ''GET'')], [2]),
           (''requests_total'', [(''method'', ''POST'')], [1])])
        ''up'' [] [1]))"
proof -
  let ?calls = "[(''requests_total'', [(''method'', ''GET'')], [1 :: nat]),
         (''requests_total'', [(''method'', ''GET'')], [2]),
         (''requests_total'', [(''method'', ''POST'')], [1])]"
  have h1: "\<forall>b n. Register_throws accepting_collaborators b n = None"
    by (simp add: accepting_collaborators_def)
  have h2: "\<forall>b f l a. Add_throws accepting_collaborators b f l a = None"
    by (simp add: accepting_collaborators_def)
  have v1: "SizeFamilies (Gets accepting_collaborators new_registry ?calls) = 1"
    by code_simp
  have v2: "SizeMetrics (Gets accepting_collaborators new_registry ?calls) = 2"
    by code_simp
  note sized = Size_counts_created_keys [OF refl, of accepting_collaborators "?calls" "''up''" "[]" "[1]"]
  from sized h1 h2
  have "SizeFamilies (Gets accepting_collaborators new_registry ?calls) =
      card (std_hash accepting_collaborators ` fst ` set ?calls)"
    by blast
  moreover from sized
  have "SizeMetrics (Gets accepting_collaborators new_registry ?calls) \<le>
     SizeMetrics (fst (Get accepting_collaborators
        (Gets accepting_collaborators new_registry ?calls) ''up'' [] [1]))"
    by blast
  ultimately show ?thesis
    using h1 h2 v1 v2 by (intro conjI)
qed

section \<open>C8: failures of the collaborators\<close>

text \<open>
  C8. A call that does not find the family cached and whose registration throws fails
  with that very exception and leaves the registry untouched; when the registration
  returns, the family is cached and registered. With the family at hand, a call that does
  not find the metric cached and whose \<^verbatim>\<open>Family::Add\<close> throws fails with that very
  exception and leaves the instance cache and the instances of the backend untouched;
  when \<^verbatim>\<open>Family::Add\<close> returns, the call returns the new metric, cached and added.
  Conversely a call fails only with the exception of one of the two collaborators, and in
  every call the family cache gains an entry exactly when the backend gains a family, and
  the instance cache exactly when the backend gains an instance. The backend that
  \<^verbatim>\<open>Family::Add\<close> meets is the one after the first block: that of the result, with the
  instances as they were before the call.
\<close>

theorem Get_failure_atomic:
  assumes "Get env r name lbls args = (r', res)"
  shows
   "(families r' = families r \<and> registered (registry r') = registered (registry r) \<or>
     families r' = families r @ [(std_hash env name, length (registered (registry r)))] \<and>
     registered (registry r') = registered (registry r) @ [proto_name env name]) \<and>
    (metrics r' = metrics r \<and> added (registry r') = added (registry r) \<or>
     (\<exists>family.
        metrics r' =
          metrics r @ [(hash_name_and_labels env name lbls, length (added (registry r)))] \<and>
        added (registry r') =
          added (registry r) @ [(family, parse_labels env lbls [], args)])) \<and>
    (\<forall>e. res = Inl e \<longrightarrow>
       r' = r \<and> Register_throws env (registry r) (proto_name env name) = Some e \<or>
       metrics r' = metrics r \<and> added (registry r') = added (registry r) \<and>
       (\<exists>family. map_of (families r') (std_hash env name) = Some family \<and>
          Add_throws env (registry r') family (parse_labels env lbls []) args = Some e)) \<and>
    (case map_of (families r) (std_hash env name) of
       Some family \<Rightarrow>
         families r' = families r \<and> registered (registry r') = registered (registry r)
     | None \<Rightarrow>
         (case Register_throws env (registry r) (proto_name env name) of
            Some e \<Rightarrow> res = Inl e \<and> r' = r
          | None \<Rightarrow>
              families r' =
                families r @ [(std_hash env name, length (registered (registry r)))] \<and>
              registered (registry r') =
                registered (registry r) @ [proto_name env name])) \<and>
    (\<forall>family. map_of (families r') (std_hash env name) = Some family \<longrightarrow>
       (case map_of (metrics r) (hash_name_and_labels env name lbls) of
          Some metric \<Rightarrow>
            res = Inr metric \<and> metrics r' = metrics r \<and>
            added (registry r') = added (registry r)
        | None \<Rightarrow>
            (case Add_throws env ((registry r')\<lparr>added := added (registry r)\<rparr>) family
                    (parse_labels env lbls []) args of
               Some e \<Rightarrow>
                 res = Inl e \<and> metrics r' = metrics r \<and>
                 added (registry r') = added (registry r)
             | None \<Rightarrow>
                 res = Inr (length (added (registry r))) \<and>
                 metrics r' =
                   metrics r @
                     [(hash_name_and_labels env name lbls, length (added (registry r)))] \<and>
                 added (registry r') =
                   added (registry r) @ [(family, parse_labels env lbls [], args)])))"
proof (cases rule: Get_blocks [of env r name lbls args])
  case (family_throws e)
  with assms have same: "r' = r" and res: "res = Inl e" by simp_all
  note thrown = Get_family_throws [OF family_throws(1)]
  have c45: "(case map_of (families r) (std_hash env name) of
       Some family \<Rightarrow>
         families r' = families r \<and> registered (registry r') = registered (registry r)
     | None \<Rightarrow>
         (case Register_throws env (registry r) (proto_name env name) of
            Some e \<Rightarrow> res = Inl e \<and> r' = r
          | None \<Rightarrow>
              families r' =
                families r @ [(std_hash env name, length (registered (registry r)))] \<and>
              registered (registry r') =
                registered (registry r) @ [proto_name env name]))"
    using thrown same res by simp
  have none: "map_of (families r') (std_hash env name) = None"
    using thrown same by simp
  show ?thesis
    using c45 thrown same res none by simp
next
  case (family_found r1 family)
  then have m: "Get_metric env r1 family name lbls args = (r', res)"
    using assms by simp
  note f = family_found(1)
  have fam: "map_of (families r1) (std_hash env name) = Some family"
    using Get_family_keeps(1) [OF f] .
  have keep: "metrics r1 = metrics r" "added (registry r1) = added (registry r)"
    using Get_family_keeps(3,4) [OF f] by simp_all
  have keep': "families r' = families r1" "registered (registry r') = registered (registry r1)"
    using Get_metric_keeps(2,3) [OF m] by simp_all
  have c1: "families r' = families r \<and> registered (registry r') = registered (registry r) \<or>
     families r' = families r @ [(std_hash env name, length (registered (registry r)))] \<and>
     registered (registry r') = registered (registry r) @ [proto_name env name]"
    using Get_family_step [OF f] keep' by auto
  have c2: "metrics r' = metrics r \<and> added (registry r') = added (registry r) \<or>
     (\<exists>family.
        metrics r' =
          metrics r @ [(hash_name_and_labels env name lbls, length (added (registry r)))] \<and>
        added (registry r') =
          added (registry r) @ [(family, parse_labels env lbls [], args)])"
    using Get_metric_step [OF m] keep by auto
  have c3: "metrics r' = metrics r \<and> added (registry r') = added (registry r) \<and>
       (\<exists>family. map_of (families r') (std_hash env name) = Some family \<and>
          Add_throws env (registry r') family (parse_labels env lbls []) args = Some e)"
    if "res = Inl e" for e
    using Get_metric_step [OF m] that keep fam by auto
  have c4: "(case map_of (families r) (std_hash env name) of
       Some family \<Rightarrow>
         families r' = families r \<and> registered (registry r') = registered (registry r)
     | None \<Rightarrow>
         (case Register_throws env (registry r) (proto_name env name) of
            Some e \<Rightarrow> res = Inl e \<and> r' = r
          | None \<Rightarrow>
              families r' =
                families r @ [(std_hash env name, length (registered (registry r)))] \<and>
              registered (registry r') =
                registered (registry r) @ [proto_name env name]))"
    using f keep' unfolding Get_family_decided
    by (auto split: option.splits)
  have c5: "(case map_of (metrics r) (hash_name_and_labels env name lbls) of
          Some metric \<Rightarrow>
            res = Inr metric \<and> metrics r' = metrics r \<and>
            added (registry r') = added (registry r)
        | None \<Rightarrow>
            (case Add_throws env ((registry r')\<lparr>added := added (registry r)\<rparr>) family'
                    (parse_labels env lbls []) args of
               Some e \<Rightarrow>
                 res = Inl e \<and> metrics r' = metrics r \<and>
                 added (registry r') = added (registry r)
             | None \<Rightarrow>
                 res = Inr (length (added (registry r))) \<and>
                 metrics r' =
                   metrics r @
                     [(hash_name_and_labels env name lbls, length (added (registry r)))] \<and>
                 added (registry r') =
                   added (registry r) @ [(family', parse_labels env lbls [], args)]))"
    if "map_of (families r') (std_hash env name) = Some family'" for family'
  proof -
    have eq: "family' = family"
      using that fam keep'(1) by simp
    note decided = Get_metric_decided [OF m, unfolded keep]
    show ?thesis
      unfolding eq decided(1) by (rule decided(2))
  qed
  from c1 c2 c3 c4 c5 show ?thesis
    by (intro conjI allI impI) blast+
qed

theorem Get_failure_atomic_witness:
  "Register_throws example_collaborators (registry (new_registry :: nat list MetricsRegistry))
      (proto_name example_collaborators ''requests_total'') = None \<and>
   Add_throws example_collaborators
      ((registry (fst (Get example_collaborators new_registry ''requests_total''
          [(''method'', ''GET'')] [])))\<lparr>added := added (registry new_registry)\<rparr>)
      0 (parse_labels example_collaborators [(''method'', ''GET'')] []) [] =
     Some ''no buckets'' \<and>
   Get example_collaborators new_registry ''requests_total'' [(''method'', ''GET'')] [] =
     (\<lparr>families = [(poly_hash ''requests_total'', 0)], metrics = [],
       registry = \<lparr>registered = [''7''], added = []\<rparr>\<rparr>, Inl ''no buckets'') \<and>
   Register_throws example_collaborators (registry (new_registry :: nat list MetricsRegistry))
      (proto_name example_collaborators []) = Some ''empty name'' \<and>
   Get example_collaborators new_registry [] [(''method'', ''GET'')] [1] =
     (new_registry, Inl ''empty name'') \<and>
   Add_throws example_collaborators
      ((registry (fst (Get example_collaborators new_registry ''requests_total''
          [(''method'', ''GET'')] [1])))\<lparr>added := added (registry new_registry)\<rparr>)
      0 (parse_labels example_collaborators [(''method'', ''GET'')] []) [1] = None \<and>
   Get example_collaborators new_registry ''requests_total'' [(''method'', ''GET'')] [1] =
     (\<lparr>families = [(poly_hash ''requests_total'', 0)],
       metrics = [(poly_hash ''requests_totalmethodGET'', 0)],
       registry = \<lparr>registered = [''7''], added = [(0, [(''3'', ''GET'')], [1])]\<rparr>\<rparr>, Inr 0)"
proof -
  let ?new = "new_registry :: nat list MetricsRegistry"
  let ?lbls = "[(''method'', ''GET'')]"
  let ?fails = "Get example_collaborators ?new ''requests_total'' ?lbls []"
  let ?rejected = "Get example_collaborators ?new [] ?lbls [1]"
  let ?works = "Get example_collaborators ?new ''requests_total'' ?lbls [1]"
  have fmiss: "map_of (families ?new) (std_hash example_collaborators name) = None" for name
    by (simp add: new_registry_def)
  have mmiss: "map_of (metrics ?new) (hash_name_and_labels example_collaborators name ?lbls) = None"
    for name
    by (simp add: new_registry_def)
  have accepted: "Register_throws example_collaborators (registry ?new)
      (proto_name example_collaborators ''requests_total'') = None"
    by code_simp
  have refused: "Register_throws example_collaborators (registry ?new)
      (proto_name example_collaborators []) = Some ''empty name''"
    by code_simp
  have no_buckets: "Add_throws example_collaborators b 0
      (parse_labels example_collaborators ?lbls []) [] = Some ''no buckets''" for b
    by (simp add: example_collaborators_def)
  have buckets: "Add_throws example_collaborators b 0
      (parse_labels example_collaborators ?lbls []) [1] = None" for b
    by (simp add: example_collaborators_def)
  have vals: "std_hash example_collaborators ''requests_total'' = poly_hash ''requests_total''"
    "hash_name_and_labels example_collaborators ''requests_total'' ?lbls =
       poly_hash ''requests_totalmethodGET''"
    "proto_name example_collaborators ''requests_total'' = ''7''"
    "parse_labels example_collaborators ?lbls [] = [(''3'', ''GET'')]"
    "label_name example_collaborators ''method'' = ''3''"
    by code_simp+
  have pair: "g = (fst g, snd g)" for g :: "nat list MetricsRegistry \<times> (string + nat)"
    by simp

  note t1 = Get_failure_atomic [OF pair [of ?fails]]
  note fam1 = t1 [THEN conjunct2, THEN conjunct2, THEN conjunct2, THEN conjunct1]
  have f1: "families (fst ?fails) = [(poly_hash ''requests_total'', 0)]"
    "registered (registry (fst ?fails)) = [''7'']"
    using fam1 fmiss accepted by (simp_all add: vals new_registry_def)
  then have cached1: "map_of (families (fst ?fails))
      (std_hash example_collaborators ''requests_total'') = Some 0"
    by (simp add: vals)
  note met1 = t1 [THEN conjunct2, THEN conjunct2, THEN conjunct2, THEN conjunct2,
    rule_format, OF cached1]
  have m1: "snd ?fails = Inl ''no buckets''" "metrics (fst ?fails) = []"
    "added (registry (fst ?fails)) = []"
    using met1 mmiss no_buckets by (simp_all add: new_registry_def)
  have r1: "?fails = (\<lparr>families = [(poly_hash ''requests_total'', 0)], metrics = [],
       registry = \<lparr>registered = [''7''], added = []\<rparr>\<rparr>, Inl ''no buckets'')"
    using f1 m1 by (simp add: prod_eq_iff MetricsRegistry.equality backend.equality)

  note t2 = Get_failure_atomic [OF pair [of ?rejected]]
  note fam2 = t2 [THEN conjunct2, THEN conjunct2, THEN conjunct2, THEN conjunct1]
  have r2: "?rejected = (new_registry, Inl ''empty name'')"
    using fam2 fmiss refused by (simp add: prod_eq_iff)

  note t3 = Get_failure_atomic [OF pair [of ?works]]
  note fam3 = t3 [THEN conjunct2, THEN conjunct2, THEN conjunct2, THEN conjunct1]
  have f3: "families (fst ?works) = [(poly_hash ''requests_total'', 0)]"
    "registered (registry (fst ?works)) = [''7'']"
    using fam3 fmiss accepted by (simp_all add: vals new_registry_def)
  then have cached3: "map_of (families (fst ?works))
      (std_hash example_collaborators ''requests_total'') = Some 0"
    by (simp add: vals)
  note met3 = t3 [THEN conjunct2, THEN conjunct2, THEN conjunct2, THEN conjunct2,
    rule_format, OF cached3]
  have m3: "snd ?works = Inr 0"
    "metrics (fst ?works) = [(poly_hash ''requests_totalmethodGET'', 0)]"
    "added (registry (fst ?works)) = [(0, [(''3'', ''GET'')], [1])]"
    using met3 mmiss buckets by (simp_all add: vals new_registry_def)
  have r3: "?works = (\<lparr>families = [(poly_hash ''requests_total'', 0)],
       metrics = [(poly_hash ''requests_totalmethodGET'', 0)],
       registry = \<lparr>registered = [''7''], added = [(0, [(''3'', ''GET'')], [1])]\<rparr>\<rparr>, Inr 0)"
    using f3 m3 by (simp add: prod_eq_iff MetricsRegistry.equality backend.equality)
  show ?thesis
    using accepted no_buckets r1 refused r2 buckets r3 by (intro conjI)
qed

section \<open>C9: label names with one canonical form\<close>

text \<open>
  C9. In a label mapping with two distinct raw names of the same canonical form, of which
  \<open>k1\<close> is the least raw name of that form, the mapping built by \<^verbatim>\<open>parse_labels\<close> has the
  canonical name exactly once, with the value of \<open>k1\<close>; the value of the other raw name is
  not stored under it, and the mapping built is shorter than the input.
\<close>

theorem parse_labels_collision:
  assumes "std_map lbls" and "(k1, v1) \<in> set lbls" and "(k2, v2) \<in> set lbls"
    and "k1 \<noteq> k2" and "label_name env k1 = label_name env k2"
    and "\<forall>k \<in> fst ` set lbls. label_name env k = label_name env k1 \<longrightarrow> k1 \<le> k"
  shows "filter (\<lambda>p. fst p = label_name env k1) (parse_labels env lbls []) =
           [(label_name env k1, v1)] \<and>
         map_of (parse_labels env lbls []) (label_name env k2) = Some v1 \<and>
         length (parse_labels env lbls []) < length lbls"
proof -
  let ?out = "parse_labels env lbls []"
  have found: "map_of ?out (label_name env k1) = Some v1"
    using map_of_least_key [OF assms(1,2,6)] by (simp add: map_of_parse_labels)
  have "filter (\<lambda>p. fst p = label_name env k1) ?out = [(label_name env k1, v1)]"
    using filter_key_unique [OF std_map_distinct [OF std_map_parse_labels] found] .
  moreover have "length ?out < length lbls"
  proof -
    have "k1 \<in> fst ` set lbls" and "k2 \<in> fst ` set lbls"
      using assms(2,3) by force+
    then have "\<not> inj_on (label_name env) (fst ` set lbls)"
      using assms(4,5) by (auto simp: inj_on_def)
    then have "card (label_name env ` fst ` set lbls) \<noteq> card (fst ` set lbls)"
      by (simp add: inj_on_iff_eq_card)
    moreover have "card (label_name env ` fst ` set lbls) \<le> card (fst ` set lbls)"
      by (simp add: card_image_le)
    ultimately show ?thesis
      by (simp add: length_std_map [OF std_map_parse_labels] length_std_map [OF assms(1)]
            keys_parse_labels)
  qed
  ultimately show ?thesis
    using found assms(5) by simp
qed

theorem parse_labels_collision_witness:
  "std_map [(''code'', ''200''), (''http_method'', ''GET''), (''method'', ''POST'')] \<and>
   (''http_method'', ''GET'') \<in> set [(''code'', ''200''), (''http_method'', ''GET''), (''method'', ''POST'')] \<and>
   (''method'', ''POST'') \<in> set [(''code'', ''200''), (''http_method'', ''GET''), (''method'', ''POST'')] \<and>
   ''http_method'' \<noteq> ''method'' \<and>
   label_name example_collaborators ''http_method'' = label_name example_collaborators ''method'' \<and>
   parse_labels example_collaborators
     [(''code'', ''200''), (''http_method'', ''GET''), (''method'', ''POST'')] [] =
     [(''3'', ''GET''), (''code'', ''200'')] \<and>
   filter (\<lambda>p. fst p = label_name example_collaborators ''http_method'')
     (parse_labels example_collaborators
        [(''code'', ''200''), (''http_method'', ''GET''), (''method'', ''POST'')] []) =
     [(label_name example_collaborators ''http_method'', ''GET'')] \<and>
   length (parse_labels example_collaborators
        [(''code'', ''200''), (''http_method'', ''GET''), (''method'', ''POST'')] []) <
     length [(''code'', ''200''), (''http_method'', ''GET''), (''method'', ''POST'')]"
proof -
  let ?l = "[(''code'', ''200''), (''http_method'', ''GET''), (''method'', ''POST'')]"
  have h1: "std_map ?l" by code_simp
  have h2: "(''http_method'', ''GET'') \<in> set ?l" by simp
  have h3: "(''method'', ''POST'') \<in> set ?l" by simp
  have h4: "''http_method'' \<noteq> ''method''" by simp
  have h5: "label_name example_collaborators ''http_method'' =
      label_name example_collaborators ''method''" by code_simp
  have l1: "label_name example_collaborators ''code'' \<noteq> label_name example_collaborators ''http_method''"
    by code_simp
  have l2: "''http_method'' \<le> ''method''" by code_simp
  have h6: "\<forall>k \<in> fst ` set ?l. label_name example_collaborators k =
      label_name example_collaborators ''http_method'' \<longrightarrow> ''http_method'' \<le> k"
    using l1 l2 by simp
  have v: "parse_labels example_collaborators ?l [] = [(''3'', ''GET''), (''code'', ''200'')]"
    by code_simp
  show ?thesis
    using parse_labels_collision [OF h1 h2 h3 h4 h5 h6] h1 h2 h3 h4 h5 v by blast
qed

section \<open>C10: the aligned allocation\<close>

text \<open>
  Where the request \<open>sz + sizeof_ptr + align_in_bytes\<close> does not wrap around and the block
  of the allocator ends below the top of the address space, the function does what is
  asked of it: the pointer returned is a multiple of the alignment, the slot before it
  holds the pointer of the allocator, and both the slot and the \<open>sz\<close> bytes from the
  pointer lie in the block. When the allocator returns \<^verbatim>\<open>NULL\<close>, so does the function.
\<close>

lemma align_up_multiple:
  fixes M A :: nat
  assumes "0 < A"
  shows "(M + (A - M mod A)) mod A = 0" and "0 < A - M mod A" and "A - M mod A \<le> A"
proof -
  have lt: "M mod A < A"
    using assms by simp
  then show "0 < A - M mod A" and "A - M mod A \<le> A"
    by simp_all
  have "M = A * (M div A) + M mod A"
    by simp
  then have "M + (A - M mod A) = A * (M div A) + A"
    using lt by linarith
  then show "(M + (A - M mod A)) mod A = 0"
    by simp
qed

lemma unat_add_small:
  fixes x y :: size_t
  shows "unat x + unat y < 2 ^ 64 \<Longrightarrow> unat (x + y) = unat x + unat y"
  using unat_add_lem [of x y] by simp

lemma aligned_malloc_no_overflow:
  fixes sz align_in_bytes :: size_t
  assumes "align_in_bytes \<noteq> 0"
    and "lfds611_abstraction_malloc (sz + sizeof_ptr + align_in_bytes) = p"
    and "p \<noteq> 0"
    and "unat p + (unat sz + 8 + unat align_in_bytes) < 2 ^ 64"
  shows "\<exists>memory.
      lfds611_liblfds_aligned_malloc lfds611_abstraction_malloc mem sz align_in_bytes =
        Inr (mem(memory - sizeof_ptr \<mapsto> p), memory) \<and>
      unat memory mod unat align_in_bytes = 0 \<and>
      unat (sz + sizeof_ptr + align_in_bytes) = unat sz + 8 + unat align_in_bytes \<and>
      in_block p (sz + sizeof_ptr + align_in_bytes) (memory - sizeof_ptr) 8 \<and>
      in_block p (sz + sizeof_ptr + align_in_bytes) memory (unat sz) \<and>
      unat p + 8 < unat memory"
proof -
  let ?A = "unat align_in_bytes"
  let ?M = "unat p + 8"
  let ?off = "?A - ?M mod ?A"
  have A: "0 < ?A"
    using assms(1) by (simp add: unat_gt_0)
  note up = align_up_multiple [OF A, of ?M]
  have u8: "unat sizeof_ptr = 8"
    by (simp add: sizeof_ptr_def)
  have "unat sz + unat sizeof_ptr < 2 ^ 64"
    using assms(4) u8 by linarith
  then have s1: "unat (sz + sizeof_ptr) = unat sz + 8"
    using unat_add_small [of sz sizeof_ptr] u8 by simp
  have "unat (sz + sizeof_ptr) + ?A < 2 ^ 64"
    using assms(4) s1 by linarith
  then have total: "unat (sz + sizeof_ptr + align_in_bytes) = unat sz + 8 + ?A"
    using unat_add_small [of "sz + sizeof_ptr" align_in_bytes] s1 by simp
  have "unat p + unat sizeof_ptr < 2 ^ 64"
    using assms(4) u8 by linarith
  then have m1: "unat (p + sizeof_ptr) = ?M"
    using unat_add_small [of p sizeof_ptr] u8 by simp
  have md: "unat ((p + sizeof_ptr) mod align_in_bytes) = ?M mod ?A"
    by (simp only: unat_mod m1)
  have "?M mod ?A \<le> ?A"
    using A by (simp add: less_imp_le)
  then have "(p + sizeof_ptr) mod align_in_bytes \<le> align_in_bytes"
    by (simp only: word_le_nat_alt md)
  then have off: "unat (align_in_bytes - (p + sizeof_ptr) mod align_in_bytes) = ?off"
    by (simp only: unat_sub md)
  let ?memory = "p + sizeof_ptr + (align_in_bytes - (p + sizeof_ptr) mod align_in_bytes)"
  have "unat (p + sizeof_ptr) + unat (align_in_bytes - (p + sizeof_ptr) mod align_in_bytes)
      < 2 ^ 64"
    using assms(4) up(3) unfolding m1 off by linarith
  then have m2: "unat ?memory = ?M + ?off"
    using unat_add_small
      [of "p + sizeof_ptr" "align_in_bytes - (p + sizeof_ptr) mod align_in_bytes"]
    by (simp only: m1 off)
  have ge: "sizeof_ptr \<le> ?memory"
    unfolding word_le_nat_alt m2 u8 by linarith
  have m3: "unat (?memory - sizeof_ptr) = unat p + ?off"
    unfolding unat_sub [OF ge] m2 u8 by linarith
  have run: "lfds611_liblfds_aligned_malloc lfds611_abstraction_malloc mem sz align_in_bytes =
        Inr (mem(?memory - sizeof_ptr \<mapsto> p), ?memory)"
    using assms(1,2,3) by (simp add: lfds611_liblfds_aligned_malloc_def Let_def)
  have a: "unat ?memory mod ?A = 0"
    unfolding m2 using up(1) .
  have b: "in_block p (sz + sizeof_ptr + align_in_bytes) (?memory - sizeof_ptr) 8"
    unfolding in_block_def m3 total using up(2,3) by linarith
  have c: "in_block p (sz + sizeof_ptr + align_in_bytes) ?memory (unat sz)"
    unfolding in_block_def m2 total using up(2,3) by linarith
  have d: "unat p + 8 < unat ?memory"
    unfolding m2 using up(2) by linarith
  show ?thesis
    using run a total b c d by (intro exI [of _ ?memory] conjI)
qed

lemma aligned_malloc_NULL:
  "lfds611_abstraction_malloc (sz + sizeof_ptr + align_in_bytes) = 0 \<Longrightarrow>
   lfds611_liblfds_aligned_malloc lfds611_abstraction_malloc mem sz align_in_bytes = Inr (mem, 0)"
  by (simp add: lfds611_liblfds_aligned_malloc_def)

text \<open>
  C10. The source notes that \<^verbatim>\<open>size\<close> can be any value in its range. For a size of
  \<open>2^64 - 16\<close> and an alignment of 16 the request wraps around to 8 bytes; with the block
  of 8 bytes at 4096, the function stores the original pointer in the slot at 4104 and
  returns 4112: the slot and the pointer are past the end of the block.
\<close>

theorem aligned_malloc_overflow:
  "(18446744073709551600 + sizeof_ptr + 16 :: size_t) = 8 \<and>
   lfds611_liblfds_aligned_malloc (\<lambda>n. 4096) Map.empty 18446744073709551600 16 =
     Inr ([4104 \<mapsto> 4096], 4112) \<and>
   \<not> in_block 4096 8 4104 8 \<and> \<not> in_block 4096 8 4112 0"
  by (simp add: lfds611_liblfds_aligned_malloc_def sizeof_ptr_def in_block_def)

end
